theory Spec2Isabelle
  imports Complex_Main
begin

section \<open>settings.py\<close>

definition BLOCK_SIZE :: int where
  "BLOCK_SIZE = 32"

definition WORLD_WIDTH :: int where
  "WORLD_WIDTH = 100"

definition WORLD_HEIGHT :: int where
  "WORLD_HEIGHT = 50"

definition GRAVITY :: real where
  "GRAVITY = 35 / 100"

definition JUMP_SPEED :: int where
  "JUMP_SPEED = - 6"

definition PLAYER_SPEED :: int where
  "PLAYER_SPEED = 5"

definition MAX_FALL_SPEED :: int where
  "MAX_FALL_SPEED = 10"

text \<open>Python's \<^verbatim>\<open>range(n)\<close> and \<^verbatim>\<open>range(a, b)\<close> over integers.\<close>

definition range1 :: "int \<Rightarrow> int list" where
  "range1 n = [0..n - 1]"

definition range2 :: "int \<Rightarrow> int \<Rightarrow> int list" where
  "range2 a b = [a..b - 1]"

section \<open>pygame.Rect\<close>

text \<open>
  The library's rectangle: integer \<open>x\<close>, \<open>y\<close>, \<open>w\<close>, \<open>h\<close>. The derived attributes are
  the library's: \<open>right = x + w\<close>, \<open>bottom = y + h\<close>, \<open>centerx = x + (w >> 1)\<close>,
  \<open>centery = y + (h >> 1)\<close>. Coordinates are taken as unbounded integers (the library
  stores C ints; pixel coordinates of this game stay far from their limits).
\<close>

record rect =
  rect_x :: int
  rect_y :: int
  rect_w :: int
  rect_h :: int

definition Rect :: "int \<Rightarrow> int \<Rightarrow> int \<Rightarrow> int \<Rightarrow> rect" where
  "Rect x y w h = \<lparr>rect_x = x, rect_y = y, rect_w = w, rect_h = h\<rparr>"

definition rect_left :: "rect \<Rightarrow> int" where
  "rect_left r = rect_x r"

definition rect_top :: "rect \<Rightarrow> int" where
  "rect_top r = rect_y r"

definition rect_right :: "rect \<Rightarrow> int" where
  "rect_right r = rect_x r + rect_w r"

definition rect_bottom :: "rect \<Rightarrow> int" where
  "rect_bottom r = rect_y r + rect_h r"

definition centerx :: "rect \<Rightarrow> int" where
  "centerx r = rect_x r + rect_w r div 2"

definition centery :: "rect \<Rightarrow> int" where
  "centery r = rect_y r + rect_h r div 2"

text \<open>
  \<^verbatim>\<open>A.colliderect(B)\<close>: a rectangle of zero width or height collides with nothing;
  otherwise the two overlap on both axes, edges that only touch not counting.
\<close>

definition colliderect :: "rect \<Rightarrow> rect \<Rightarrow> bool" where
  "colliderect A B =
     (if rect_w A = 0 \<or> rect_h A = 0 \<or> rect_w B = 0 \<or> rect_h B = 0 then False
      else min (rect_x A) (rect_x A + rect_w A) < max (rect_x B) (rect_x B + rect_w B) \<and>
           min (rect_y A) (rect_y A + rect_h A) < max (rect_y B) (rect_y B + rect_h B) \<and>
           max (rect_x A) (rect_x A + rect_w A) > min (rect_x B) (rect_x B + rect_w B) \<and>
           max (rect_y A) (rect_y A + rect_h A) > min (rect_y B) (rect_y B + rect_h B))"

section \<open>block.py\<close>

text \<open>
  A block keeps its pixel rectangle and its type string. Its colour is a function of the
  type alone and is read by drawing only; it is left out of the record.
\<close>

record block =
  block_rect :: rect
  block_type :: string

definition Block :: "int \<Rightarrow> int \<Rightarrow> string \<Rightarrow> block" where
  "Block x y t =
     \<lparr>block_rect = Rect (x * BLOCK_SIZE) (y * BLOCK_SIZE) BLOCK_SIZE BLOCK_SIZE,
      block_type = t\<rparr>"

definition is_breakable :: "block \<Rightarrow> bool" where
  "is_breakable b = (block_type b \<noteq> ''bedrock'')"

section \<open>world.py\<close>

text \<open>The world object has one attribute, the dictionary \<^verbatim>\<open>blocks\<close> keyed by cell.\<close>

record world =
  blocks :: "int \<times> int \<Rightarrow> block option"

definition set_block :: "int \<Rightarrow> int \<Rightarrow> string \<Rightarrow> world \<Rightarrow> world" where
  "set_block x y t w = w\<lparr>blocks := (blocks w)((x, y) \<mapsto> Block x y t)\<rparr>"

subsection \<open>generate_terrain\<close>

text \<open>
  The source of randomness is a function \<open>rnd\<close>: \<open>rnd x\<close> is what
  \<^verbatim>\<open>random.randint(-1, 1)\<close> returns in the iteration of column \<open>x\<close>. The library
  returns one of \<open>-1\<close>, \<open>0\<close>, \<open>1\<close>.
\<close>

definition valid_rnd :: "(int \<Rightarrow> int) \<Rightarrow> bool" where
  "valid_rnd rnd = (\<forall>x. - 1 \<le> rnd x \<and> rnd x \<le> 1)"

definition clamp_height :: "int \<Rightarrow> int" where
  "clamp_height height = max (WORLD_HEIGHT div 3) (min height (WORLD_HEIGHT - 10))"

fun heights_loop :: "(int \<Rightarrow> int) \<Rightarrow> int list \<Rightarrow> int \<Rightarrow> int list \<Rightarrow> int list" where
  "heights_loop rnd [] height heights = heights"
| "heights_loop rnd (x # xs) height heights =
     (let height1 = height + rnd x;
          height2 = clamp_height height1
      in heights_loop rnd xs height2 (heights @ [height2]))"

definition generate_heights :: "(int \<Rightarrow> int) \<Rightarrow> int list" where
  "generate_heights rnd = heights_loop rnd (range1 WORLD_WIDTH) (WORLD_HEIGHT div 2) []"

text \<open>
  The body of the fill loops for one cell. \<^verbatim>\<open>heights[x]\<close> is in range: the list has
  \<open>WORLD_WIDTH\<close> entries (lemma \<open>length_generate_heights\<close>) and \<open>x\<close> runs over
  \<^verbatim>\<open>range(WORLD_WIDTH)\<close>.
\<close>

definition terrain_cell :: "int list \<Rightarrow> int \<Rightarrow> int \<Rightarrow> world \<Rightarrow> world" where
  "terrain_cell heights x y w =
     (if y > heights ! nat x then
        (if y < WORLD_HEIGHT - 5 then set_block x y ''stone'' w
         else set_block x y ''dirt'' w)
      else if y = heights ! nat x then set_block x y ''grass'' w
      else w)"

definition generate_terrain :: "(int \<Rightarrow> int) \<Rightarrow> world \<Rightarrow> world" where
  "generate_terrain rnd w =
     (let heights = generate_heights rnd
      in fold (\<lambda>x. fold (terrain_cell heights x) (range1 WORLD_HEIGHT)) (range1 WORLD_WIDTH) w)"

subsection \<open>add_bedrock_borders\<close>

definition add_bedrock_borders :: "world \<Rightarrow> world" where
  "add_bedrock_borders w =
     (let w1 = fold (\<lambda>x. set_block x (WORLD_HEIGHT - 1) ''bedrock'') (range1 WORLD_WIDTH) w
      in fold (\<lambda>y w'. set_block (WORLD_WIDTH - 1) y ''bedrock'' (set_block 0 y ''bedrock'' w'))
           (range1 WORLD_HEIGHT) w1)"

definition World_init :: "(int \<Rightarrow> int) \<Rightarrow> world" where
  "World_init rnd = add_bedrock_borders (generate_terrain rnd \<lparr>blocks = Map.empty\<rparr>)"

subsection \<open>get_surface_height, get_block\<close>

text \<open>The scan returns at the first occupied row; \<open>find\<close> is that early return.\<close>

definition get_surface_height :: "world \<Rightarrow> int \<Rightarrow> int" where
  "get_surface_height w x =
     (case find (\<lambda>y. blocks w (x, y) \<noteq> None) (range1 WORLD_HEIGHT) of
        Some y \<Rightarrow> y
      | None \<Rightarrow> WORLD_HEIGHT div 2)"

definition get_block :: "world \<Rightarrow> int \<Rightarrow> int \<Rightarrow> block option" where
  "get_block w x y = blocks w (x, y)"

subsection \<open>check_line_of_sight\<close>

text \<open>
  The two \<^verbatim>\<open>while\<close> loops. The error term is a Python float: it starts at half an
  integer and only integers are added to it, so it is exact and is modelled as a real.
  A block object is truthy, so \<^verbatim>\<open>self.get_block(x, y)\<close> as a condition is
  \<open>get_block w x y \<noteq> None\<close>. A loop that never reaches its exit is the value \<open>None\<close>.
\<close>

partial_function (option) los_loop_x ::
  "world \<Rightarrow> int \<Rightarrow> int \<Rightarrow> real \<Rightarrow> int \<Rightarrow> int \<Rightarrow> int \<Rightarrow> int \<Rightarrow> int \<Rightarrow> int \<Rightarrow> bool option" where
  "los_loop_x w x y err end_block_x end_block_y dx dy step_x step_y =
     (if x \<noteq> end_block_x then
        (if (x, y) \<noteq> (end_block_x, end_block_y) \<and> get_block w x y \<noteq> None then Some False
         else
           (let err1 = err - of_int dy
            in if err1 < 0
               then los_loop_x w (x + step_x) (y + step_y) (err1 + of_int dx)
                      end_block_x end_block_y dx dy step_x step_y
               else los_loop_x w (x + step_x) y err1
                      end_block_x end_block_y dx dy step_x step_y))
      else Some True)"

partial_function (option) los_loop_y ::
  "world \<Rightarrow> int \<Rightarrow> int \<Rightarrow> real \<Rightarrow> int \<Rightarrow> int \<Rightarrow> int \<Rightarrow> int \<Rightarrow> int \<Rightarrow> int \<Rightarrow> bool option" where
  "los_loop_y w x y err end_block_x end_block_y dx dy step_x step_y =
     (if y \<noteq> end_block_y then
        (if (x, y) \<noteq> (end_block_x, end_block_y) \<and> get_block w x y \<noteq> None then Some False
         else
           (let err1 = err - of_int dx
            in if err1 < 0
               then los_loop_y w (x + step_x) (y + step_y) (err1 + of_int dy)
                      end_block_x end_block_y dx dy step_x step_y
               else los_loop_y w x (y + step_y) err1
                      end_block_x end_block_y dx dy step_x step_y))
      else Some True)"

declare los_loop_x.simps [code] los_loop_y.simps [code]

definition check_line_of_sight :: "world \<Rightarrow> int \<Rightarrow> int \<Rightarrow> int \<Rightarrow> int \<Rightarrow> bool option" where
  "check_line_of_sight w start_x start_y end_x end_y =
     (let start_block_x = start_x div BLOCK_SIZE;
          start_block_y = start_y div BLOCK_SIZE;
          end_block_x = end_x div BLOCK_SIZE;
          end_block_y = end_y div BLOCK_SIZE
      in if \<bar>start_block_x - end_block_x\<bar> \<le> 1 \<and> \<bar>start_block_y - end_block_y\<bar> \<le> 1
         then Some True
         else
           (let dx = \<bar>end_block_x - start_block_x\<bar>;
                dy = \<bar>end_block_y - start_block_y\<bar>;
                step_x = (if start_block_x < end_block_x then 1 else - 1);
                step_y = (if start_block_y < end_block_y then 1 else - 1)
            in if dx > dy
               then los_loop_x w start_block_x start_block_y (of_int dx / 2)
                      end_block_x end_block_y dx dy step_x step_y
               else los_loop_y w start_block_x start_block_y (of_int dy / 2)
                      end_block_x end_block_y dx dy step_x step_y))"

subsection \<open>break_block\<close>

text \<open>
  \<^verbatim>\<open>math.sqrt\<close> of a sum of two integer squares, as a real square root. The only use
  is the comparison with 3, which lemma \<open>too_far_iff\<close> turns into integer arithmetic.
\<close>

definition distance :: "int \<Rightarrow> int \<Rightarrow> int \<Rightarrow> int \<Rightarrow> real" where
  "distance block_x block_y player_block_x player_block_y =
     sqrt (of_int ((block_x - player_block_x)\<^sup>2 + (block_y - player_block_y)\<^sup>2))"

definition too_far :: "int \<Rightarrow> int \<Rightarrow> int \<Rightarrow> int \<Rightarrow> bool" where
  "too_far block_x block_y player_block_x player_block_y =
     (distance block_x block_y player_block_x player_block_y > 3)"

definition del_block :: "int \<Rightarrow> int \<Rightarrow> world \<Rightarrow> world" where
  "del_block x y w = w\<lparr>blocks := (blocks w)((x, y) := None)\<rparr>"

text \<open>
  Every \<^verbatim>\<open>return\<close> leaves the world as it is. The result is \<open>None\<close> only if the
  line-of-sight loop does not end.
\<close>

definition break_block :: "world \<Rightarrow> int \<times> int \<Rightarrow> int \<times> int \<Rightarrow> world option" where
  "break_block w pos player_pos =
     (let block_x = fst pos div BLOCK_SIZE;
          block_y = snd pos div BLOCK_SIZE
      in case blocks w (block_x, block_y) of
           None \<Rightarrow> Some w
         | Some b \<Rightarrow>
             if \<not> is_breakable b then Some w
             else
               (let player_block_x = fst player_pos div BLOCK_SIZE;
                    player_block_y = snd player_pos div BLOCK_SIZE
                in if too_far block_x block_y player_block_x player_block_y then Some w
                   else
                     (case check_line_of_sight w (fst player_pos) (snd player_pos)
                             (block_x * BLOCK_SIZE + BLOCK_SIZE div 2)
                             (block_y * BLOCK_SIZE + BLOCK_SIZE div 2) of
                        None \<Rightarrow> None
                      | Some sight \<Rightarrow>
                          if \<not> sight then Some w
                          else Some (del_block block_x block_y w))))"

subsection \<open>has_adjacent_block, would_collide_with_player, place_block\<close>

definition adjacent_positions :: "int \<Rightarrow> int \<Rightarrow> (int \<times> int) list" where
  "adjacent_positions x y =
     [(x + 1, y), (x - 1, y), (x, y + 1), (x, y - 1),
      (x + 1, y + 1), (x - 1, y + 1), (x + 1, y - 1), (x - 1, y - 1)]"

definition has_adjacent_block :: "world \<Rightarrow> int \<Rightarrow> int \<Rightarrow> bool" where
  "has_adjacent_block w x y = list_ex (\<lambda>p. blocks w p \<noteq> None) (adjacent_positions x y)"

definition would_collide_with_player :: "int \<Rightarrow> int \<Rightarrow> rect \<Rightarrow> bool" where
  "would_collide_with_player block_x block_y player_rect =
     colliderect (Rect (block_x * BLOCK_SIZE) (block_y * BLOCK_SIZE) BLOCK_SIZE BLOCK_SIZE)
       player_rect"

text \<open>The argument \<^verbatim>\<open>pos\<close> is the triple of the target point and the player's rectangle.\<close>

definition place_block :: "world \<Rightarrow> int \<times> int \<times> rect \<Rightarrow> string \<Rightarrow> world option" where
  "place_block w pos block_type' =
     (let block_x = fst pos div BLOCK_SIZE;
          block_y = fst (snd pos) div BLOCK_SIZE
      in if blocks w (block_x, block_y) \<noteq> None then Some w
         else if \<not> has_adjacent_block w block_x block_y then Some w
         else
           (let player_rect = snd (snd pos)
            in if would_collide_with_player block_x block_y player_rect then Some w
               else
                 (let player_block_x = centerx player_rect div BLOCK_SIZE;
                      player_block_y = centery player_rect div BLOCK_SIZE
                  in if too_far block_x block_y player_block_x player_block_y then Some w
                     else
                       (case check_line_of_sight w (centerx player_rect) (centery player_rect)
                               (block_x * BLOCK_SIZE + BLOCK_SIZE div 2)
                               (block_y * BLOCK_SIZE + BLOCK_SIZE div 2) of
                          None \<Rightarrow> None
                        | Some sight \<Rightarrow>
                            if \<not> sight then Some w
                            else Some (set_block block_x block_y block_type' w)))))"

subsection \<open>check_collision\<close>

text \<open>The nested loops return \<^verbatim>\<open>True\<close> at the first hit, \<^verbatim>\<open>False\<close> after the scan.\<close>

definition check_collision :: "world \<Rightarrow> rect \<Rightarrow> bool" where
  "check_collision w r =
     (let start_x = max 0 (rect_left r div BLOCK_SIZE);
          end_x = min WORLD_WIDTH (rect_right r div BLOCK_SIZE + 1);
          start_y = max 0 (rect_top r div BLOCK_SIZE);
          end_y = min WORLD_HEIGHT (rect_bottom r div BLOCK_SIZE + 1)
      in list_ex (\<lambda>x. list_ex (\<lambda>y.
             case blocks w (x, y) of
               None \<Rightarrow> False
             | Some b \<Rightarrow> colliderect r (block_rect b))
           (range2 start_y end_y))
         (range2 start_x end_x))"

subsection \<open>World states reachable by play\<close>

text \<open>
  The state after construction, followed by any sequence of \<^verbatim>\<open>break_block\<close> and
  \<^verbatim>\<open>place_block\<close> calls with arbitrary arguments.
\<close>

inductive reachable :: "world \<Rightarrow> bool" where
  reach_init: "valid_rnd rnd \<Longrightarrow> reachable (World_init rnd)"
| reach_break: "reachable w \<Longrightarrow> break_block w pos player_pos = Some w' \<Longrightarrow> reachable w'"
| reach_place: "reachable w \<Longrightarrow> place_block w pos' t = Some w' \<Longrightarrow> reachable w'"

definition in_domain :: "int \<times> int \<Rightarrow> bool" where
  "in_domain c = (0 \<le> fst c \<and> fst c < WORLD_WIDTH \<and> 0 \<le> snd c \<and> snd c < WORLD_HEIGHT)"

definition is_border :: "int \<times> int \<Rightarrow> bool" where
  "is_border c = (in_domain c \<and>
     (fst c = 0 \<or> fst c = WORLD_WIDTH - 1 \<or> snd c = WORLD_HEIGHT - 1))"

text \<open>
  The states reached when every \<^verbatim>\<open>place_block\<close> call targets a cell of the world's
  rectangle.
\<close>

inductive reachable_inside :: "world \<Rightarrow> bool" where
  ri_init: "valid_rnd rnd \<Longrightarrow> reachable_inside (World_init rnd)"
| ri_break: "reachable_inside w \<Longrightarrow> break_block w pos player_pos = Some w' \<Longrightarrow>
     reachable_inside w'"
| ri_place: "reachable_inside w \<Longrightarrow> place_block w pos' t = Some w' \<Longrightarrow>
     in_domain (fst pos' div BLOCK_SIZE, fst (snd pos') div BLOCK_SIZE) \<Longrightarrow>
     reachable_inside w'"

section \<open>player.py\<close>

text \<open>
  The player's attributes that \<^verbatim>\<open>update\<close> reads or writes. The vertical velocity is a
  Python float once gravity has been added; it is modelled as a real. The sprite images are
  left out. The pressed keys that \<^verbatim>\<open>update\<close> polls are an argument.
\<close>

record player =
  spawn_x :: int
  spawn_y :: int
  player_rect :: rect
  velocity_y :: real
  velocity_x :: int
  on_ground :: bool
  facing_right :: bool

record keys =
  K_LEFT :: bool
  K_a :: bool
  K_RIGHT :: bool
  K_d :: bool
  K_SPACE :: bool
  K_UP :: bool

definition respawn :: "player \<Rightarrow> player" where
  "respawn p =
     p\<lparr>player_rect := (player_rect p)\<lparr>rect_x := spawn_x p, rect_y := spawn_y p\<rparr>,
       velocity_y := 0,
       velocity_x := 0\<rparr>"

definition check_ground :: "player \<Rightarrow> world \<Rightarrow> bool" where
  "check_ground p w =
     (let test_rect = player_rect p;
          test_rect1 = test_rect\<lparr>rect_y := rect_y test_rect + 1\<rparr>
      in check_collision w test_rect1)"

text \<open>Python's \<^verbatim>\<open>int\<close> of a float truncates towards zero.\<close>

definition py_int :: "real \<Rightarrow> int" where
  "py_int v = (if v \<ge> 0 then \<lfloor>v\<rfloor> else \<lceil>v\<rceil>)"

definition handle_input :: "keys \<Rightarrow> player \<Rightarrow> player" where
  "handle_input ks p =
     (let p1 = p\<lparr>velocity_x := 0\<rparr>;
          p2 = (if K_LEFT ks \<or> K_a ks
                then p1\<lparr>velocity_x := - PLAYER_SPEED, facing_right := False\<rparr> else p1)
      in if K_RIGHT ks \<or> K_d ks
         then p2\<lparr>velocity_x := PLAYER_SPEED, facing_right := True\<rparr> else p2)"

definition jump_and_gravity :: "keys \<Rightarrow> world \<Rightarrow> player \<Rightarrow> player" where
  "jump_and_gravity ks w p =
     (let p1 = p\<lparr>on_ground := check_ground p w\<rparr>;
          p2 = (if (K_SPACE ks \<or> K_UP ks) \<and> on_ground p1
                then p1\<lparr>velocity_y := of_int JUMP_SPEED, on_ground := False\<rparr> else p1)
      in if \<not> on_ground p2
         then p2\<lparr>velocity_y := min (velocity_y p2 + GRAVITY) (of_int MAX_FALL_SPEED)\<rparr>
         else p2)"

definition move_rect_x :: "int \<Rightarrow> player \<Rightarrow> player" where
  "move_rect_x d p = p\<lparr>player_rect := (player_rect p)\<lparr>rect_x := rect_x (player_rect p) + d\<rparr>\<rparr>"

definition move_rect_y :: "int \<Rightarrow> player \<Rightarrow> player" where
  "move_rect_y d p = p\<lparr>player_rect := (player_rect p)\<lparr>rect_y := rect_y (player_rect p) + d\<rparr>\<rparr>"

definition horizontal_move :: "world \<Rightarrow> player \<Rightarrow> player" where
  "horizontal_move w p =
     (let p1 = move_rect_x (velocity_x p) p
      in if check_collision w (player_rect p1) then move_rect_x (- velocity_x p1) p1 else p1)"

text \<open>The \<^verbatim>\<open>for\<close> loop over the pixel steps, with its \<^verbatim>\<open>break\<close>.\<close>

fun vertical_steps :: "world \<Rightarrow> int \<Rightarrow> nat \<Rightarrow> player \<Rightarrow> player" where
  "vertical_steps w step 0 p = p"
| "vertical_steps w step (Suc n) p =
     (let p1 = move_rect_y step p
      in if check_collision w (player_rect p1)
         then (move_rect_y (- step) p1)\<lparr>velocity_y := 0\<rparr>
         else vertical_steps w step n p1)"

definition vertical_move :: "world \<Rightarrow> player \<Rightarrow> player" where
  "vertical_move w p =
     (if velocity_y p \<noteq> 0
      then (let step = (if velocity_y p > 0 then 1 else - 1)
            in vertical_steps w step (nat \<bar>py_int (velocity_y p)\<bar>) p)
      else p)"

text \<open>Everything \<^verbatim>\<open>update\<close> does before the void check.\<close>

definition update_motion :: "keys \<Rightarrow> world \<Rightarrow> player \<Rightarrow> player" where
  "update_motion ks w p = vertical_move w (horizontal_move w (jump_and_gravity ks w (handle_input ks p)))"

definition update :: "keys \<Rightarrow> world \<Rightarrow> player \<Rightarrow> player" where
  "update ks w p =
     (let p1 = update_motion ks w p
      in if rect_y (player_rect p1) > WORLD_HEIGHT * BLOCK_SIZE then respawn p1 else p1)"

subsection \<open>Example players\<close>

text \<open>
  A player left of the world, two pixels above the world's vertical bound, falling at the
  maximal speed; and no key pressed.
\<close>

definition falling_player :: player where
  "falling_player =
     \<lparr>spawn_x = 1600, spawn_y = 704, player_rect = Rect (- 100) 1598 38 83,
      velocity_y = 10, velocity_x = 0, on_ground = False, facing_right = True\<rparr>"

definition no_keys :: keys where
  "no_keys =
     \<lparr>K_LEFT = False, K_a = False, K_RIGHT = False, K_d = False, K_SPACE = False, K_UP = False\<rparr>"

section \<open>Auxiliary notions for the properties\<close>

text \<open>What the fill loops of \<^verbatim>\<open>generate_terrain\<close> write at a cell, if anything.\<close>

definition terrain_at :: "int list \<Rightarrow> int \<times> int \<Rightarrow> block option" where
  "terrain_at heights c =
     (if snd c > heights ! nat (fst c) then
        Some (Block (fst c) (snd c) (if snd c < WORLD_HEIGHT - 5 then ''stone'' else ''dirt''))
      else if snd c = heights ! nat (fst c) then Some (Block (fst c) (snd c) ''grass'')
      else None)"

text \<open>
  The cells the two line-of-sight loops stand on during their first \<open>n\<close> iterations: the
  loops' own stepping, without the occupancy test.
\<close>

fun walk_x :: "nat \<Rightarrow> int \<Rightarrow> int \<Rightarrow> real \<Rightarrow> int \<Rightarrow> int \<Rightarrow> int \<Rightarrow> int \<Rightarrow> (int \<times> int) list" where
  "walk_x 0 x y err dx dy step_x step_y = []"
| "walk_x (Suc n) x y err dx dy step_x step_y =
     (x, y) #
     (let err1 = err - of_int dy
      in if err1 < 0 then walk_x n (x + step_x) (y + step_y) (err1 + of_int dx) dx dy step_x step_y
         else walk_x n (x + step_x) y err1 dx dy step_x step_y)"

fun walk_y :: "nat \<Rightarrow> int \<Rightarrow> int \<Rightarrow> real \<Rightarrow> int \<Rightarrow> int \<Rightarrow> int \<Rightarrow> int \<Rightarrow> (int \<times> int) list" where
  "walk_y 0 x y err dx dy step_x step_y = []"
| "walk_y (Suc n) x y err dx dy step_x step_y =
     (x, y) #
     (let err1 = err - of_int dx
      in if err1 < 0 then walk_y n (x + step_x) (y + step_y) (err1 + of_int dy) dx dy step_x step_y
         else walk_y n x (y + step_y) err1 dx dy step_x step_y)"

text \<open>The cells visited between two cells that are not within the fast path.\<close>

definition los_cells :: "int \<times> int \<Rightarrow> int \<times> int \<Rightarrow> (int \<times> int) list" where
  "los_cells a b =
     (let dx = \<bar>fst b - fst a\<bar>;
          dy = \<bar>snd b - snd a\<bar>;
          step_x = (if fst a < fst b then 1 else - 1);
          step_y = (if snd a < snd b then 1 else - 1)
      in if dx > dy then walk_x (nat dx) (fst a) (snd a) (of_int dx / 2) dx dy step_x step_y
         else walk_y (nat dy) (fst a) (snd a) (of_int dy / 2) dx dy step_x step_y)"

definition cell_of :: "int \<times> int \<Rightarrow> int \<times> int" where
  "cell_of p = (fst p div BLOCK_SIZE, snd p div BLOCK_SIZE)"

definition chebyshev_adjacent :: "int \<times> int \<Rightarrow> int \<times> int \<Rightarrow> bool" where
  "chebyshev_adjacent a b = (\<bar>fst a - fst b\<bar> \<le> 1 \<and> \<bar>snd a - snd b\<bar> \<le> 1)"

definition occupied :: "world \<Rightarrow> int \<times> int \<Rightarrow> bool" where
  "occupied w c = (blocks w c \<noteq> None)"

text \<open>All keys of the dictionary are cells of the world's rectangle.\<close>

definition keys_in_domain :: "world \<Rightarrow> bool" where
  "keys_in_domain w = (\<forall>c. occupied w c \<longrightarrow> in_domain c)"

text \<open>Every stored block carries the pixel rectangle of the cell it is stored at.\<close>

definition blocks_at_cells :: "world \<Rightarrow> bool" where
  "blocks_at_cells w =
     (\<forall>c b. blocks w c = Some b \<longrightarrow>
        block_rect b = Rect (fst c * BLOCK_SIZE) (snd c * BLOCK_SIZE) BLOCK_SIZE BLOCK_SIZE)"

text \<open>The border cells hold bedrock.\<close>

definition border_inv :: "world \<Rightarrow> bool" where
  "border_inv w = (\<forall>c. is_border c \<longrightarrow> (\<exists>b. blocks w c = Some b \<and> block_type b = ''bedrock''))"

text \<open>
  The closed form of the two stepping loops. On a line with major extent \<open>n\<close> and minor
  extent \<open>m\<close>, the walk has made \<open>minor_steps n m k\<close> steps on the minor axis when it stands
  on its \<open>k\<close>-th cell: \<open>k * m / n\<close> rounded to the nearest integer, a half rounded down.
  A tie is an index at which \<open>k * m / n\<close> is an integer plus a half.
\<close>

definition minor_steps :: "int \<Rightarrow> int \<Rightarrow> int \<Rightarrow> int" where
  "minor_steps n m k = \<lceil>(of_int (k * m) - of_int n / 2) / (of_int n :: real)\<rceil>"

definition tie_at :: "int \<Rightarrow> int \<Rightarrow> int \<Rightarrow> bool" where
  "tie_at n m k = ((2 * n) dvd (2 * k * m - n))"

definition has_tie :: "int \<times> int \<Rightarrow> int \<times> int \<Rightarrow> bool" where
  "has_tie a b =
     (let dx = \<bar>fst b - fst a\<bar>;
          dy = \<bar>snd b - snd a\<bar>;
          n = max dx dy;
          m = min dx dy
      in \<exists>k\<in>{1..<n}. tie_at n m k)"

definition line_cell :: "int \<times> int \<Rightarrow> int \<times> int \<Rightarrow> int \<Rightarrow> int \<times> int" where
  "line_cell a b k =
     (let dx = \<bar>fst b - fst a\<bar>;
          dy = \<bar>snd b - snd a\<bar>;
          step_x = (if fst a < fst b then 1 else - 1);
          step_y = (if snd a < snd b then 1 else - 1)
      in if dx > dy then (fst a + k * step_x, snd a + minor_steps dx dy k * step_y)
         else (fst a + minor_steps dy dx k * step_x, snd a + k * step_y))"

text \<open>The world whose only block stands at one cell.\<close>

definition single_block_world :: "int \<times> int \<Rightarrow> world" where
  "single_block_world c = \<lparr>blocks = [c \<mapsto> Block (fst c) (snd c) ''stone'']\<rparr>"

subsection \<open>Example inputs\<close>

text \<open>Flat terrain: every draw is 0.\<close>

definition flat_rnd :: "int \<Rightarrow> int" where
  "flat_rnd x = 0"

text \<open>Terrain with one step down between columns 1 and 2.\<close>

definition step_rnd :: "int \<Rightarrow> int" where
  "step_rnd x = (if x = 0 then 1 else if x = 2 then - 1 else 0)"

text \<open>The flat world with a dirt block on top of the left wall, one row above the world.\<close>

definition ledge_world :: world where
  "ledge_world = set_block 0 (- 1) ''dirt'' (World_init flat_rnd)"

section \<open>Terrain generation\<close>

lemma set_range1: "set (range1 n) = {0..<n}"
  by (auto simp: range1_def)

lemma length_range1: "length (range1 n) = nat n"
  by (simp add: range1_def)

lemma nth_range1: "i < nat n \<Longrightarrow> range1 n ! i = int i"
  by (simp add: range1_def)

lemma clamp_height_bounds: "WORLD_HEIGHT div 3 \<le> clamp_height h \<and> clamp_height h \<le> WORLD_HEIGHT - 10"
  by (simp add: clamp_height_def WORLD_HEIGHT_def)

lemma clamp_height_step:
  "WORLD_HEIGHT div 3 \<le> h \<Longrightarrow> h \<le> WORLD_HEIGHT - 10 \<Longrightarrow> - 1 \<le> r \<Longrightarrow> r \<le> 1 \<Longrightarrow>
   \<bar>h - clamp_height (h + r)\<bar> \<le> 1"
  by (simp add: clamp_height_def WORLD_HEIGHT_def)

lemma length_heights_loop:
  "length (heights_loop rnd xs h acc) = length acc + length xs"
  by (induction xs arbitrary: h acc) (simp_all add: Let_def)

lemma heights_loop_prefix:
  "i < length acc \<Longrightarrow> heights_loop rnd xs h acc ! i = acc ! i"
  by (induction xs arbitrary: h acc) (simp_all add: Let_def nth_append)

lemma heights_loop_first:
  "heights_loop rnd (x # xs) h acc ! length acc = clamp_height (h + rnd x)"
  by (simp add: Let_def heights_loop_prefix)

lemma heights_loop_next:
  "Suc i < length xs \<Longrightarrow>
   heights_loop rnd xs h acc ! (length acc + Suc i) =
     clamp_height (heights_loop rnd xs h acc ! (length acc + i) + rnd (xs ! Suc i))"
proof (induction xs arbitrary: h acc i)
  case Nil
  then show ?case by simp
next
  case (Cons x xs)
  let ?h = "clamp_height (h + rnd x)"
  let ?acc = "acc @ [?h]"
  show ?case
  proof (cases i)
    case 0
    from Cons.prems 0 obtain y ys where xs: "xs = y # ys" by (cases xs) auto
    have a: "heights_loop rnd (x # xs) h acc ! (length acc + Suc 0) = clamp_height (?h + rnd y)"
      using heights_loop_first [of rnd y ys ?h ?acc] by (simp add: Let_def xs)
    have b: "heights_loop rnd (x # xs) h acc ! length acc = ?h"
      by (rule heights_loop_first)
    show ?thesis using a b by (simp add: 0 xs)
  next
    case (Suc j)
    have "Suc j < length xs" using Cons.prems Suc by simp
    from Cons.IH [OF this, of ?h ?acc] show ?thesis
      by (simp add: Let_def Suc)
  qed
qed

lemma length_generate_heights: "length (generate_heights rnd) = nat WORLD_WIDTH"
  by (simp add: generate_heights_def length_heights_loop length_range1)

lemma generate_heights_0:
  "generate_heights rnd ! 0 = clamp_height (WORLD_HEIGHT div 2 + rnd 0)"
proof -
  have "range1 WORLD_WIDTH = 0 # [1..WORLD_WIDTH - 1]"
    by (simp add: range1_def WORLD_WIDTH_def upto_rec1)
  then show ?thesis
    using heights_loop_first [of rnd 0 "[1..WORLD_WIDTH - 1]" "WORLD_HEIGHT div 2" "[]"]
    by (simp add: generate_heights_def)
qed

lemma generate_heights_Suc:
  assumes "0 \<le> x" "x + 1 < WORLD_WIDTH"
  shows "generate_heights rnd ! nat (x + 1) = clamp_height (generate_heights rnd ! nat x + rnd (x + 1))"
proof -
  have l: "Suc (nat x) < length (range1 WORLD_WIDTH)"
    using assms by (simp add: length_range1)
  have n: "range1 WORLD_WIDTH ! Suc (nat x) = x + 1"
    using assms by (simp add: nth_range1)
  have s: "nat (x + 1) = Suc (nat x)" using assms by simp
  show ?thesis
    using heights_loop_next [OF l, of rnd "WORLD_HEIGHT div 2" "[]"]
    by (simp add: generate_heights_def n s)
qed

lemma generate_heights_bounds:
  assumes "0 \<le> x" "x < WORLD_WIDTH"
  shows "WORLD_HEIGHT div 3 \<le> generate_heights rnd ! nat x \<and>
         generate_heights rnd ! nat x \<le> WORLD_HEIGHT - 10"
proof (cases "x = 0")
  case True
  then show ?thesis by (simp add: generate_heights_0 clamp_height_bounds)
next
  case False
  then have "0 \<le> x - 1" "(x - 1) + 1 < WORLD_WIDTH" using assms by simp_all
  from generate_heights_Suc [OF this, of rnd] show ?thesis
    by (simp add: clamp_height_bounds)
qed

text \<open>
  Claim C5. For every source of randomness (each draw one of \<open>-1\<close>, \<open>0\<close>, \<open>1\<close>) the height
  map has one entry per column; the first is the clamp of \<open>WORLD_HEIGHT div 2\<close> plus the
  first draw and each next one is the clamp of its left neighbour plus the draw of its
  column; adjacent columns differ by at most 1; and every height lies between
  \<open>WORLD_HEIGHT div 3\<close> and \<open>WORLD_HEIGHT - 10\<close>.
\<close>

theorem terrain_heights_smooth_and_bounded:
  assumes "valid_rnd rnd"
  shows "length (generate_heights rnd) = nat WORLD_WIDTH \<and>
         generate_heights rnd ! 0 = clamp_height (WORLD_HEIGHT div 2 + rnd 0) \<and>
         (\<forall>x. 0 \<le> x \<and> x + 1 < WORLD_WIDTH \<longrightarrow>
            generate_heights rnd ! nat (x + 1) =
              clamp_height (generate_heights rnd ! nat x + rnd (x + 1)) \<and>
            \<bar>generate_heights rnd ! nat x - generate_heights rnd ! nat (x + 1)\<bar> \<le> 1) \<and>
         (\<forall>x. 0 \<le> x \<and> x < WORLD_WIDTH \<longrightarrow>
            WORLD_HEIGHT div 3 \<le> generate_heights rnd ! nat x \<and>
            generate_heights rnd ! nat x \<le> WORLD_HEIGHT - 10)"
proof -
  have smooth: "\<bar>generate_heights rnd ! nat x - generate_heights rnd ! nat (x + 1)\<bar> \<le> 1"
    if x: "0 \<le> x" "x + 1 < WORLD_WIDTH" for x
  proof -
    have b: "WORLD_HEIGHT div 3 \<le> generate_heights rnd ! nat x \<and>
             generate_heights rnd ! nat x \<le> WORLD_HEIGHT - 10"
      using generate_heights_bounds [of x rnd] x by simp
    have r: "- 1 \<le> rnd (x + 1) \<and> rnd (x + 1) \<le> 1"
      using assms by (simp add: valid_rnd_def)
    show ?thesis
      using clamp_height_step [of "generate_heights rnd ! nat x" "rnd (x + 1)"] b r
      by (simp add: generate_heights_Suc [OF x])
  qed
  show ?thesis
    using smooth generate_heights_Suc generate_heights_bounds
    by (simp add: length_generate_heights generate_heights_0)
qed

theorem terrain_heights_witness:
  "valid_rnd (\<lambda>x. 1) \<and>
   length (generate_heights (\<lambda>x. 1)) = nat WORLD_WIDTH \<and>
   generate_heights (\<lambda>x. 1) ! 0 = 26 \<and>
   generate_heights (\<lambda>x. 1) ! 1 = 27 \<and>
   \<bar>generate_heights (\<lambda>x. 1) ! 0 - generate_heights (\<lambda>x. 1) ! 1\<bar> \<le> 1 \<and>
   16 \<le> generate_heights (\<lambda>x. 1) ! 99 \<and> generate_heights (\<lambda>x. 1) ! 99 \<le> 40"
proof -
  have v: "valid_rnd (\<lambda>x. 1)" by (simp add: valid_rnd_def)
  note t = terrain_heights_smooth_and_bounded [OF v]
  have len: "length (generate_heights (\<lambda>x. 1)) = nat WORLD_WIDTH"
    using t by simp
  have h0: "generate_heights (\<lambda>x. 1) ! 0 = 26"
    using t by (simp add: clamp_height_def WORLD_HEIGHT_def)
  have "(0::int) \<le> 0 \<and> (0::int) + 1 < WORLD_WIDTH" by (simp add: WORLD_WIDTH_def)
  with t have "generate_heights (\<lambda>x. 1) ! nat (0 + 1) =
      clamp_height (generate_heights (\<lambda>x. 1) ! nat 0 + 1)"
    by blast
  then have h1: "generate_heights (\<lambda>x. 1) ! 1 = 27"
    by (simp add: h0 clamp_height_def WORLD_HEIGHT_def)
  have "(0::int) \<le> 99 \<and> (99::int) < WORLD_WIDTH" by (simp add: WORLD_WIDTH_def)
  with t have "WORLD_HEIGHT div 3 \<le> generate_heights (\<lambda>x. 1) ! nat 99 \<and>
      generate_heights (\<lambda>x. 1) ! nat 99 \<le> WORLD_HEIGHT - 10"
    by blast
  then have h99: "16 \<le> generate_heights (\<lambda>x. 1) ! 99 \<and> generate_heights (\<lambda>x. 1) ! 99 \<le> 40"
    by (simp add: WORLD_HEIGHT_def)
  show ?thesis using v len h0 h1 h99 by simp
qed

section \<open>The constructed world\<close>

lemma blocks_set_block:
  "blocks (set_block x y t w) k = (if k = (x, y) then Some (Block x y t) else blocks w k)"
  by (simp add: set_block_def)

lemma blocks_del_block:
  "blocks (del_block x y w) k = (if k = (x, y) then None else blocks w k)"
  by (simp add: del_block_def)

lemma blocks_terrain_cell:
  "blocks (terrain_cell hs x y w) k =
     (if k = (x, y) \<and> terrain_at hs k \<noteq> None then terrain_at hs k else blocks w k)"
  by (auto simp: terrain_cell_def terrain_at_def blocks_set_block)

lemma blocks_fold_column:
  "blocks (fold (terrain_cell hs x) ys w) k =
     (if fst k = x \<and> snd k \<in> set ys \<and> terrain_at hs k \<noteq> None then terrain_at hs k
      else blocks w k)"
proof (induction ys arbitrary: w)
  case Nil
  then show ?case by simp
next
  case (Cons y ys)
  show ?case
    by (auto simp: Cons.IH blocks_terrain_cell prod_eq_iff)
qed

lemma blocks_fold_columns:
  "blocks (fold (\<lambda>x. fold (terrain_cell hs x) ys) xs w) k =
     (if fst k \<in> set xs \<and> snd k \<in> set ys \<and> terrain_at hs k \<noteq> None then terrain_at hs k
      else blocks w k)"
proof (induction xs arbitrary: w)
  case Nil
  then show ?case by simp
next
  case (Cons x xs)
  show ?case
    by (auto simp: Cons.IH blocks_fold_column)
qed

lemma blocks_generate_terrain:
  "blocks (generate_terrain rnd w) k =
     (if in_domain k \<and> terrain_at (generate_heights rnd) k \<noteq> None
      then terrain_at (generate_heights rnd) k else blocks w k)"
  by (simp add: generate_terrain_def blocks_fold_columns set_range1 in_domain_def)

lemma blocks_fold_bottom:
  "blocks (fold (\<lambda>x. set_block x b t) xs w) k =
     (if fst k \<in> set xs \<and> snd k = b then Some (Block (fst k) (snd k) t) else blocks w k)"
proof (induction xs arbitrary: w)
  case Nil
  then show ?case by simp
next
  case (Cons x xs)
  show ?case
    by (auto simp: Cons.IH blocks_set_block prod_eq_iff)
qed

lemma blocks_fold_sides:
  "blocks (fold (\<lambda>y w'. set_block r y t (set_block l y t w')) ys w) k =
     (if (fst k = l \<or> fst k = r) \<and> snd k \<in> set ys then Some (Block (fst k) (snd k) t)
      else blocks w k)"
proof (induction ys arbitrary: w)
  case Nil
  then show ?case by simp
next
  case (Cons y ys)
  show ?case
    by (auto simp: Cons.IH blocks_set_block prod_eq_iff)
qed

lemma blocks_add_bedrock_borders:
  "blocks (add_bedrock_borders w) k =
     (if is_border k then Some (Block (fst k) (snd k) ''bedrock'') else blocks w k)"
  by (auto simp: add_bedrock_borders_def Let_def blocks_fold_bottom blocks_fold_sides
      set_range1 is_border_def in_domain_def WORLD_WIDTH_def WORLD_HEIGHT_def)

lemma blocks_World_init:
  "blocks (World_init rnd) k =
     (if is_border k then Some (Block (fst k) (snd k) ''bedrock'')
      else if in_domain k then terrain_at (generate_heights rnd) k
      else None)"
  by (auto simp: World_init_def blocks_add_bedrock_borders blocks_generate_terrain)

section \<open>The flat example world\<close>

lemma valid_flat_rnd: "valid_rnd flat_rnd"
  by (simp add: valid_rnd_def flat_rnd_def)

lemma flat_heights:
  assumes "0 \<le> x" "x < WORLD_WIDTH"
  shows "generate_heights flat_rnd ! nat x = 25"
  using assms
proof (induction x rule: int_ge_induct)
  case base
  have "flat_rnd 0 = 0" by (simp add: flat_rnd_def)
  then show ?case
    by (simp add: generate_heights_0 clamp_height_def WORLD_HEIGHT_def)
next
  case (step i)
  then have h: "generate_heights flat_rnd ! nat i = 25" by simp
  have r: "flat_rnd (i + 1) = 0" by (simp add: flat_rnd_def)
  have "generate_heights flat_rnd ! nat (i + 1) =
      clamp_height (generate_heights flat_rnd ! nat i + flat_rnd (i + 1))"
    using step by (intro generate_heights_Suc) simp_all
  then show ?case
    by (simp add: h r clamp_height_def WORLD_HEIGHT_def)
qed

lemma blocks_flat_world:
  "blocks (World_init flat_rnd) (x, y) =
     (if is_border (x, y) then Some (Block x y ''bedrock'')
      else if in_domain (x, y) then
        (if y > 25 then Some (Block x y (if y < 45 then ''stone'' else ''dirt''))
         else if y = 25 then Some (Block x y ''grass'')
         else None)
      else None)"
proof (cases "in_domain (x, y)")
  case True
  then have "generate_heights flat_rnd ! nat x = 25"
    by (intro flat_heights) (simp_all add: in_domain_def)
  then show ?thesis
    by (simp add: blocks_World_init terrain_at_def WORLD_HEIGHT_def)
next
  case False
  then show ?thesis
    by (simp add: blocks_World_init is_border_def)
qed

lemmas world_consts = is_border_def in_domain_def WORLD_WIDTH_def WORLD_HEIGHT_def BLOCK_SIZE_def

lemma Block_sel [simp]:
  "block_type (Block x y t) = t"
  "block_rect (Block x y t) = Rect (x * BLOCK_SIZE) (y * BLOCK_SIZE) BLOCK_SIZE BLOCK_SIZE"
  by (simp_all add: Block_def)

section \<open>Line of sight\<close>

lemma los_loop_x_walk:
  "step_x \<noteq> 0 \<Longrightarrow>
   los_loop_x w x y err (x + int n * step_x) end_block_y dx dy step_x step_y =
     Some (list_all (\<lambda>c. blocks w c = None) (walk_x n x y err dx dy step_x step_y))"
proof (induction n arbitrary: x y err)
  case 0
  show ?case by (subst los_loop_x.simps) simp
next
  case (Suc n)
  have "step_x + int n * step_x = (1 + int n) * step_x"
    by (simp add: algebra_simps)
  then have ne: "step_x + int n * step_x \<noteq> 0"
    using Suc.prems by simp
  have e: "x + int (Suc n) * step_x = (x + step_x) + int n * step_x"
    by (simp add: algebra_simps)
  show ?case
    by (subst los_loop_x.simps, simp only: e)
      (simp add: Suc.IH [OF Suc.prems] ne get_block_def Let_def)
qed

lemma los_loop_y_walk:
  "step_y \<noteq> 0 \<Longrightarrow>
   los_loop_y w x y err end_block_x (y + int n * step_y) dx dy step_x step_y =
     Some (list_all (\<lambda>c. blocks w c = None) (walk_y n x y err dx dy step_x step_y))"
proof (induction n arbitrary: x y err)
  case 0
  show ?case by (subst los_loop_y.simps) simp
next
  case (Suc n)
  have "step_y + int n * step_y = (1 + int n) * step_y"
    by (simp add: algebra_simps)
  then have ne: "step_y + int n * step_y \<noteq> 0"
    using Suc.prems by simp
  have e: "y + int (Suc n) * step_y = (y + step_y) + int n * step_y"
    by (simp add: algebra_simps)
  show ?case
    by (subst los_loop_y.simps, simp only: e)
      (simp add: Suc.IH [OF Suc.prems] ne get_block_def Let_def)
qed

lemma end_by_steps:
  "(b::int) = a + int (nat \<bar>b - a\<bar>) * (if a < b then 1 else - 1)"
  by simp

lemma check_line_of_sight_cells:
  "check_line_of_sight w start_x start_y end_x end_y =
     Some (chebyshev_adjacent (cell_of (start_x, start_y)) (cell_of (end_x, end_y)) \<or>
           list_all (\<lambda>c. blocks w c = None)
             (los_cells (cell_of (start_x, start_y)) (cell_of (end_x, end_y))))"
proof -
  define ax where "ax = start_x div BLOCK_SIZE"
  define ay where "ay = start_y div BLOCK_SIZE"
  define bx where "bx = end_x div BLOCK_SIZE"
  define by' where "by' = end_y div BLOCK_SIZE"
  have x: "los_loop_x w ax ay err bx by' dx dy (if ax < bx then 1 else - 1) sy =
      Some (list_all (\<lambda>c. blocks w c = None)
        (walk_x (nat \<bar>bx - ax\<bar>) ax ay err dx dy (if ax < bx then 1 else - 1) sy))" for err dx dy sy
    using los_loop_x_walk [of "if ax < bx then 1 else - 1" w ax ay err "nat \<bar>bx - ax\<bar>" by' dx dy sy]
    by (cases "ax < bx") simp_all
  have y: "los_loop_y w ax ay err bx by' dx dy sx (if ay < by' then 1 else - 1) =
      Some (list_all (\<lambda>c. blocks w c = None)
        (walk_y (nat \<bar>by' - ay\<bar>) ax ay err dx dy sx (if ay < by' then 1 else - 1)))" for err dx dy sx
    using los_loop_y_walk [of "if ay < by' then 1 else - 1" w ax ay err bx "nat \<bar>by' - ay\<bar>" dx dy sx]
    by (cases "ay < by'") simp_all
  show ?thesis
  proof (cases "\<bar>ax - bx\<bar> \<le> 1 \<and> \<bar>ay - by'\<bar> \<le> 1")
    case True
    then show ?thesis
      by (simp add: check_line_of_sight_def cell_of_def chebyshev_adjacent_def Let_def
          ax_def ay_def bx_def by'_def)
  next
    case False
    then show ?thesis
      unfolding check_line_of_sight_def los_cells_def cell_of_def chebyshev_adjacent_def Let_def
        fst_conv snd_conv ax_def [symmetric] ay_def [symmetric] bx_def [symmetric] by'_def [symmetric]
      by (simp only: x y if_False if_cancel if_distrib [of Some] option.inject simp_thms)
        (cases "\<bar>by' - ay\<bar> < \<bar>bx - ax\<bar>"; simp only: if_True if_False)
  qed
qed

section \<open>The checks of breaking and placing\<close>

lemma too_far_iff [code]:
  "too_far bx by' px py \<longleftrightarrow> (bx - px)\<^sup>2 + (by' - py)\<^sup>2 > 9"
proof -
  have "(3::real) = sqrt 9" by simp
  then have "3 < sqrt (of_int n) \<longleftrightarrow> 9 < (of_int n :: real)" for n :: int
    by (simp only: real_sqrt_less_iff)
  then show ?thesis
    by (simp add: too_far_def distance_def del: of_int_add of_int_power)
qed

lemma break_block_eq:
  "break_block w pos player_pos =
     Some (if (\<exists>b. blocks w (cell_of pos) = Some b \<and> is_breakable b) \<and>
              \<not> too_far (fst (cell_of pos)) (snd (cell_of pos))
                  (fst (cell_of player_pos)) (snd (cell_of player_pos)) \<and>
              check_line_of_sight w (fst player_pos) (snd player_pos)
                (fst (cell_of pos) * BLOCK_SIZE + BLOCK_SIZE div 2)
                (snd (cell_of pos) * BLOCK_SIZE + BLOCK_SIZE div 2) = Some True
           then del_block (fst (cell_of pos)) (snd (cell_of pos)) w
           else w)"
  by (auto simp: break_block_def cell_of_def Let_def check_line_of_sight_cells
      split: option.splits)

lemma place_block_eq:
  "place_block w pos t =
     Some (if blocks w (cell_of (fst pos, fst (snd pos))) = None \<and>
              has_adjacent_block w (fst pos div BLOCK_SIZE) (fst (snd pos) div BLOCK_SIZE) \<and>
              \<not> would_collide_with_player (fst pos div BLOCK_SIZE) (fst (snd pos) div BLOCK_SIZE)
                  (snd (snd pos)) \<and>
              \<not> too_far (fst pos div BLOCK_SIZE) (fst (snd pos) div BLOCK_SIZE)
                  (centerx (snd (snd pos)) div BLOCK_SIZE) (centery (snd (snd pos)) div BLOCK_SIZE) \<and>
              check_line_of_sight w (centerx (snd (snd pos))) (centery (snd (snd pos)))
                (fst pos div BLOCK_SIZE * BLOCK_SIZE + BLOCK_SIZE div 2)
                (fst (snd pos) div BLOCK_SIZE * BLOCK_SIZE + BLOCK_SIZE div 2) = Some True
           then set_block (fst pos div BLOCK_SIZE) (fst (snd pos) div BLOCK_SIZE) t w
           else w)"
  by (auto simp: place_block_def cell_of_def Let_def check_line_of_sight_cells
      split: option.splits)

section \<open>The border invariant\<close>

lemma border_invD:
  "border_inv w \<Longrightarrow> is_border c \<Longrightarrow> \<exists>b. blocks w c = Some b \<and> block_type b = ''bedrock''"
  unfolding border_inv_def by blast

lemma border_invI:
  "(\<And>c. is_border c \<Longrightarrow> \<exists>b. blocks w c = Some b \<and> block_type b = ''bedrock'') \<Longrightarrow> border_inv w"
  unfolding border_inv_def by blast

lemma border_inv_init: "border_inv (World_init rnd)"
  by (simp add: border_inv_def blocks_World_init Block_def)

lemma border_inv_break:
  assumes "border_inv w" "break_block w pos player_pos = Some w'"
  shows "border_inv w'"
proof -
  have "w' = w \<or> (w' = del_block (fst (cell_of pos)) (snd (cell_of pos)) w \<and>
      (\<exists>b. blocks w (cell_of pos) = Some b \<and> is_breakable b))"
    using assms(2) by (auto simp: break_block_eq split: if_splits)
  then show ?thesis
  proof
    assume "w' = w"
    then show ?thesis using assms(1) by simp
  next
    assume a: "w' = del_block (fst (cell_of pos)) (snd (cell_of pos)) w \<and>
      (\<exists>b. blocks w (cell_of pos) = Some b \<and> is_breakable b)"
    then have "\<not> is_border (cell_of pos)"
      using border_invD [OF assms(1), of "cell_of pos"] by (auto simp: is_breakable_def)
    then show ?thesis
      using a border_invD [OF assms(1)]
      by (intro border_invI) (auto simp: blocks_del_block)
  qed
qed

lemma border_inv_place:
  assumes "border_inv w" "place_block w pos t = Some w'"
  shows "border_inv w'"
proof -
  have "w' = w \<or> (w' = set_block (fst pos div BLOCK_SIZE) (fst (snd pos) div BLOCK_SIZE) t w \<and>
      blocks w (fst pos div BLOCK_SIZE, fst (snd pos) div BLOCK_SIZE) = None)"
    using assms(2) by (auto simp: place_block_eq cell_of_def split: if_splits)
  then show ?thesis
  proof
    assume "w' = w"
    then show ?thesis using assms(1) by simp
  next
    assume a: "w' = set_block (fst pos div BLOCK_SIZE) (fst (snd pos) div BLOCK_SIZE) t w \<and>
      blocks w (fst pos div BLOCK_SIZE, fst (snd pos) div BLOCK_SIZE) = None"
    then have "\<not> is_border (fst pos div BLOCK_SIZE, fst (snd pos) div BLOCK_SIZE)"
      using border_invD [OF assms(1), of "(fst pos div BLOCK_SIZE, fst (snd pos) div BLOCK_SIZE)"]
      by auto
    then show ?thesis
      using a border_invD [OF assms(1)]
      by (intro border_invI) (auto simp: blocks_set_block)
  qed
qed

lemma reachable_border_inv: "reachable w \<Longrightarrow> border_inv w"
  by (induction rule: reachable.induct)
    (auto intro: border_inv_init border_inv_break border_inv_place)

text \<open>
  Claim C4. In every reachable world state (construction, then any sequence of
  \<^verbatim>\<open>break_block\<close> and \<^verbatim>\<open>place_block\<close> calls), every cell of the world with \<open>x = 0\<close>,
  \<open>x = WORLD_WIDTH - 1\<close> or \<open>y = WORLD_HEIGHT - 1\<close> holds a block of type bedrock, and
  \<^verbatim>\<open>is_breakable\<close> is false for it.
\<close>

theorem border_cells_stay_bedrock:
  assumes "reachable w" "is_border c"
  shows "\<exists>b. blocks w c = Some b \<and> block_type b = ''bedrock'' \<and> \<not> is_breakable b"
  using border_invD [OF reachable_border_inv [OF assms(1)] assms(2)]
  by (auto simp: is_breakable_def)

theorem border_cells_stay_bedrock_witness:
  "reachable (World_init flat_rnd) \<and> is_border (0, 3) \<and>
   (\<exists>b. blocks (World_init flat_rnd) (0, 3) = Some b \<and> block_type b = ''bedrock'' \<and>
        \<not> is_breakable b)"
proof -
  have r: "reachable (World_init flat_rnd)"
    by (rule reach_init) (rule valid_flat_rnd)
  have b: "is_border (0, 3)"
    by (simp add: is_border_def in_domain_def WORLD_WIDTH_def WORLD_HEIGHT_def)
  from border_cells_stay_bedrock [OF r b] r b show ?thesis by simp
qed

section \<open>Outcome of breaking and placing\<close>

text \<open>
  Claim C6. \<^verbatim>\<open>break_block\<close> always returns, and the world it leaves is either the world
  it was given or that world with exactly the entry of the target cell removed. It is the
  given world whenever the target cell is empty, holds an unbreakable block, lies at
  Euclidean cell distance greater than 3 from the player's cell, or is out of sight; when
  no check fails the entry is removed.
\<close>

theorem break_block_outcome:
  "(break_block w pos player_pos = Some w \<or>
    break_block w pos player_pos = Some (del_block (fst (cell_of pos)) (snd (cell_of pos)) w)) \<and>
   (\<forall>k. blocks (del_block (fst (cell_of pos)) (snd (cell_of pos)) w) k =
      (if k = cell_of pos then None else blocks w k)) \<and>
   (blocks w (cell_of pos) = None \<or>
    (\<exists>b. blocks w (cell_of pos) = Some b \<and> \<not> is_breakable b) \<or>
    distance (fst (cell_of pos)) (snd (cell_of pos))
      (fst (cell_of player_pos)) (snd (cell_of player_pos)) > 3 \<or>
    check_line_of_sight w (fst player_pos) (snd player_pos)
      (fst (cell_of pos) * BLOCK_SIZE + BLOCK_SIZE div 2)
      (snd (cell_of pos) * BLOCK_SIZE + BLOCK_SIZE div 2) = Some False
    \<longrightarrow> break_block w pos player_pos = Some w) \<and>
   ((\<exists>b. blocks w (cell_of pos) = Some b \<and> is_breakable b) \<and>
    distance (fst (cell_of pos)) (snd (cell_of pos))
      (fst (cell_of player_pos)) (snd (cell_of player_pos)) \<le> 3 \<and>
    check_line_of_sight w (fst player_pos) (snd player_pos)
      (fst (cell_of pos) * BLOCK_SIZE + BLOCK_SIZE div 2)
      (snd (cell_of pos) * BLOCK_SIZE + BLOCK_SIZE div 2) = Some True
    \<longrightarrow> break_block w pos player_pos =
          Some (del_block (fst (cell_of pos)) (snd (cell_of pos)) w))"
proof (intro conjI allI impI)
  show "break_block w pos player_pos = Some w \<or>
    break_block w pos player_pos = Some (del_block (fst (cell_of pos)) (snd (cell_of pos)) w)"
    by (simp add: break_block_eq)
next
  fix k
  show "blocks (del_block (fst (cell_of pos)) (snd (cell_of pos)) w) k =
      (if k = cell_of pos then None else blocks w k)"
    by (simp add: blocks_del_block)
next
  assume "blocks w (cell_of pos) = None \<or>
    (\<exists>b. blocks w (cell_of pos) = Some b \<and> \<not> is_breakable b) \<or>
    distance (fst (cell_of pos)) (snd (cell_of pos))
      (fst (cell_of player_pos)) (snd (cell_of player_pos)) > 3 \<or>
    check_line_of_sight w (fst player_pos) (snd player_pos)
      (fst (cell_of pos) * BLOCK_SIZE + BLOCK_SIZE div 2)
      (snd (cell_of pos) * BLOCK_SIZE + BLOCK_SIZE div 2) = Some False"
  then show "break_block w pos player_pos = Some w"
    by (auto simp: break_block_eq too_far_def)
next
  assume "(\<exists>b. blocks w (cell_of pos) = Some b \<and> is_breakable b) \<and>
    distance (fst (cell_of pos)) (snd (cell_of pos))
      (fst (cell_of player_pos)) (snd (cell_of player_pos)) \<le> 3 \<and>
    check_line_of_sight w (fst player_pos) (snd player_pos)
      (fst (cell_of pos) * BLOCK_SIZE + BLOCK_SIZE div 2)
      (snd (cell_of pos) * BLOCK_SIZE + BLOCK_SIZE div 2) = Some True"
  then show "break_block w pos player_pos =
      Some (del_block (fst (cell_of pos)) (snd (cell_of pos)) w)"
    by (auto simp: break_block_eq too_far_def)
qed

theorem break_block_outcome_witness:
  "(\<exists>b. blocks (World_init flat_rnd) (cell_of (16, 16)) = Some b \<and> \<not> is_breakable b) \<and>
   break_block (World_init flat_rnd) (16, 16) (48, 48) = Some (World_init flat_rnd) \<and>
   (\<exists>b. blocks (World_init flat_rnd) (cell_of (170, 810)) = Some b \<and> is_breakable b) \<and>
   break_block (World_init flat_rnd) (170, 810) (179, 758) =
     Some (del_block 5 25 (World_init flat_rnd))"
proof -
  let ?w = "World_init flat_rnd"
  have c: "cell_of (16, 16) = (0, 0)" "cell_of (170, 810) = (5, 25)"
    "cell_of (179, 758) = (5, 23)"
    by (simp_all add: cell_of_def BLOCK_SIZE_def)
  have h: "\<exists>b. blocks ?w (cell_of (16, 16)) = Some b \<and> \<not> is_breakable b"
    by (simp add: c blocks_flat_world world_consts is_breakable_def)
  with break_block_outcome [of ?w "(16, 16)" "(48, 48)"]
  have 1: "break_block ?w (16, 16) (48, 48) = Some ?w" by blast
  have g: "\<exists>b. blocks ?w (cell_of (170, 810)) = Some b \<and> is_breakable b"
    by (simp add: c blocks_flat_world world_consts is_breakable_def)
  have d: "distance (fst (cell_of (170, 810))) (snd (cell_of (170, 810)))
      (fst (cell_of (179, 758))) (snd (cell_of (179, 758))) \<le> 3"
    using too_far_iff [of 5 25 5 23] by (simp add: c too_far_def)
  have l: "los_cells (5, 23) (5, 25) = [(5, 23), (5, 24)]"
    by (simp add: los_cells_def eval_nat_numeral)
  have s: "check_line_of_sight ?w (fst (179, 758)) (snd (179, 758))
      (fst (cell_of (170, 810)) * BLOCK_SIZE + BLOCK_SIZE div 2)
      (snd (cell_of (170, 810)) * BLOCK_SIZE + BLOCK_SIZE div 2) = Some True"
    by (simp add: check_line_of_sight_cells cell_of_def BLOCK_SIZE_def l
        blocks_flat_world world_consts chebyshev_adjacent_def)
  from break_block_outcome [of ?w "(170, 810)" "(179, 758)"] g d s
  have "break_block ?w (170, 810) (179, 758) =
      Some (del_block (fst (cell_of (170, 810))) (snd (cell_of (170, 810))) ?w)"
    by blast
  then have 2: "break_block ?w (170, 810) (179, 758) = Some (del_block 5 25 ?w)"
    by (simp add: c)
  show ?thesis using h 1 g 2 by blast
qed

lemma has_adjacent_block_iff:
  "has_adjacent_block w x y \<longleftrightarrow>
     (\<exists>c. c \<noteq> (x, y) \<and> chebyshev_adjacent c (x, y) \<and> occupied w c)"
proof
  assume "has_adjacent_block w x y"
  then obtain c where c: "c \<in> set (adjacent_positions x y)" "blocks w c \<noteq> None"
    by (auto simp: has_adjacent_block_def list_ex_iff)
  then have "c \<noteq> (x, y) \<and> chebyshev_adjacent c (x, y)"
    by (auto simp: adjacent_positions_def chebyshev_adjacent_def)
  with c have "c \<noteq> (x, y) \<and> chebyshev_adjacent c (x, y) \<and> occupied w c"
    by (simp add: occupied_def)
  then show "\<exists>c. c \<noteq> (x, y) \<and> chebyshev_adjacent c (x, y) \<and> occupied w c" ..
next
  assume "\<exists>c. c \<noteq> (x, y) \<and> chebyshev_adjacent c (x, y) \<and> occupied w c"
  then obtain a b where c: "(a, b) \<noteq> (x, y)" "chebyshev_adjacent (a, b) (x, y)" "occupied w (a, b)"
    by auto
  from c(2) have "(a = x - 1 \<or> a = x \<or> a = x + 1) \<and> (b = y - 1 \<or> b = y \<or> b = y + 1)"
    by (auto simp: chebyshev_adjacent_def)
  with c(1) have "(a, b) \<in> set (adjacent_positions x y)"
    by (auto simp: adjacent_positions_def)
  with c(3) show "has_adjacent_block w x y"
    by (auto simp: has_adjacent_block_def list_ex_iff occupied_def)
qed

text \<open>
  Claim C7, as amended. \<^verbatim>\<open>place_block\<close> leaves the world unchanged when none of the 8
  neighbouring cells of the target is occupied, and when the target cell is occupied. When
  the target cell is empty, a neighbour is occupied, the new block's rectangle does not
  overlap the player's rectangle, the cell distance to the player's cell is at most 3 and
  the line of sight is clear, it inserts exactly one block, of the requested type, at the
  target cell. The check against the player's rectangle is part of the condition: the
  counterexample below is a request that passes the other four checks and is rejected.
\<close>

theorem place_block_outcome:
  "(\<not> has_adjacent_block w (fst pos div BLOCK_SIZE) (fst (snd pos) div BLOCK_SIZE)
      \<longrightarrow> place_block w pos t = Some w) \<and>
   (has_adjacent_block w (fst pos div BLOCK_SIZE) (fst (snd pos) div BLOCK_SIZE) \<longleftrightarrow>
      (\<exists>c. c \<noteq> (fst pos div BLOCK_SIZE, fst (snd pos) div BLOCK_SIZE) \<and>
           chebyshev_adjacent c (fst pos div BLOCK_SIZE, fst (snd pos) div BLOCK_SIZE) \<and>
           occupied w c)) \<and>
   (occupied w (fst pos div BLOCK_SIZE, fst (snd pos) div BLOCK_SIZE)
      \<longrightarrow> place_block w pos t = Some w) \<and>
   (\<not> occupied w (fst pos div BLOCK_SIZE, fst (snd pos) div BLOCK_SIZE) \<and>
    has_adjacent_block w (fst pos div BLOCK_SIZE) (fst (snd pos) div BLOCK_SIZE) \<and>
    \<not> would_collide_with_player (fst pos div BLOCK_SIZE) (fst (snd pos) div BLOCK_SIZE)
        (snd (snd pos)) \<and>
    distance (fst pos div BLOCK_SIZE) (fst (snd pos) div BLOCK_SIZE)
      (centerx (snd (snd pos)) div BLOCK_SIZE) (centery (snd (snd pos)) div BLOCK_SIZE) \<le> 3 \<and>
    check_line_of_sight w (centerx (snd (snd pos))) (centery (snd (snd pos)))
      (fst pos div BLOCK_SIZE * BLOCK_SIZE + BLOCK_SIZE div 2)
      (fst (snd pos) div BLOCK_SIZE * BLOCK_SIZE + BLOCK_SIZE div 2) = Some True
      \<longrightarrow> place_block w pos t =
            Some (set_block (fst pos div BLOCK_SIZE) (fst (snd pos) div BLOCK_SIZE) t w)) \<and>
   (\<forall>k. blocks (set_block (fst pos div BLOCK_SIZE) (fst (snd pos) div BLOCK_SIZE) t w) k =
      (if k = (fst pos div BLOCK_SIZE, fst (snd pos) div BLOCK_SIZE)
       then Some (Block (fst pos div BLOCK_SIZE) (fst (snd pos) div BLOCK_SIZE) t)
       else blocks w k)) \<and>
   block_type (Block (fst pos div BLOCK_SIZE) (fst (snd pos) div BLOCK_SIZE) t) = t \<and>
   (place_block w pos t = Some w \<or>
    place_block w pos t =
      Some (set_block (fst pos div BLOCK_SIZE) (fst (snd pos) div BLOCK_SIZE) t w))"
proof (intro conjI allI impI)
  show "has_adjacent_block w (fst pos div BLOCK_SIZE) (fst (snd pos) div BLOCK_SIZE) \<longleftrightarrow>
      (\<exists>c. c \<noteq> (fst pos div BLOCK_SIZE, fst (snd pos) div BLOCK_SIZE) \<and>
           chebyshev_adjacent c (fst pos div BLOCK_SIZE, fst (snd pos) div BLOCK_SIZE) \<and>
           occupied w c)"
    by (rule has_adjacent_block_iff)
qed (auto simp: place_block_eq cell_of_def occupied_def too_far_def blocks_set_block)

theorem place_block_outcome_witness:
  "\<not> occupied (World_init flat_rnd) (5, 24) \<and>
   has_adjacent_block (World_init flat_rnd) 5 24 \<and>
   place_block (World_init flat_rnd) (170, 780, Rect 200 717 38 83) ''dirt'' =
     Some (set_block 5 24 ''dirt'' (World_init flat_rnd)) \<and>
   place_block (World_init flat_rnd) (170, 300, Rect 200 717 38 83) ''dirt'' =
     Some (World_init flat_rnd) \<and>
   occupied (World_init flat_rnd) (5, 25) \<and>
   place_block (World_init flat_rnd) (170, 810, Rect 200 717 38 83) ''dirt'' =
     Some (World_init flat_rnd)"
proof -
  let ?w = "World_init flat_rnd"
  let ?r = "Rect 200 717 38 83"
  have d: "(170::int) div BLOCK_SIZE = 5" "(780::int) div BLOCK_SIZE = 24"
    "(300::int) div BLOCK_SIZE = 9" "(810::int) div BLOCK_SIZE = 25"
    by (simp_all add: BLOCK_SIZE_def)
  have c: "centerx ?r div BLOCK_SIZE = 6" "centery ?r div BLOCK_SIZE = 23"
    by (simp_all add: centerx_def centery_def Rect_def BLOCK_SIZE_def)
  have e: "\<not> occupied ?w (5, 24)"
    by (simp add: occupied_def blocks_flat_world world_consts)
  have a: "has_adjacent_block ?w 5 24"
    by (simp add: has_adjacent_block_def adjacent_positions_def blocks_flat_world world_consts)
  have p: "\<not> would_collide_with_player 5 24 ?r"
    by (simp add: would_collide_with_player_def colliderect_def Rect_def BLOCK_SIZE_def)
  have f: "distance 5 24 6 23 \<le> 3"
    using too_far_iff [of 5 24 6 23] by (simp add: too_far_def)
  have s: "check_line_of_sight ?w (centerx ?r) (centery ?r)
      (5 * BLOCK_SIZE + BLOCK_SIZE div 2) (24 * BLOCK_SIZE + BLOCK_SIZE div 2) = Some True"
    by (simp add: check_line_of_sight_def centerx_def centery_def Rect_def BLOCK_SIZE_def)
  have n: "\<not> has_adjacent_block ?w 5 9"
    by (simp add: has_adjacent_block_def adjacent_positions_def blocks_flat_world world_consts)
  have 1: "place_block ?w (170, 780, ?r) ''dirt'' = Some (set_block 5 24 ''dirt'' ?w)"
    using place_block_outcome [of ?w "(170, 780, ?r)" "''dirt''"] e a p f s
    by (simp add: d c)
  have 2: "place_block ?w (170, 300, ?r) ''dirt'' = Some ?w"
    using place_block_outcome [of ?w "(170, 300, ?r)" "''dirt''"] n
    by (simp add: d)
  have o: "occupied ?w (5, 25)"
    by (simp add: occupied_def blocks_flat_world world_consts)
  have 3: "place_block ?w (170, 810, ?r) ''dirt'' = Some ?w"
    using place_block_outcome [of ?w "(170, 810, ?r)" "''dirt''"] o
    by (simp add: d)
  show ?thesis using e a o 1 2 3 by simp
qed

theorem place_block_player_overlap_counterexample:
  "\<not> occupied (World_init flat_rnd) (5, 24) \<and>
   has_adjacent_block (World_init flat_rnd) 5 24 \<and>
   distance 5 24 (centerx (Rect 160 717 38 83) div BLOCK_SIZE)
     (centery (Rect 160 717 38 83) div BLOCK_SIZE) \<le> 3 \<and>
   check_line_of_sight (World_init flat_rnd)
     (centerx (Rect 160 717 38 83)) (centery (Rect 160 717 38 83))
     (5 * BLOCK_SIZE + BLOCK_SIZE div 2) (24 * BLOCK_SIZE + BLOCK_SIZE div 2) = Some True \<and>
   (170::int) div BLOCK_SIZE = 5 \<and> (780::int) div BLOCK_SIZE = 24 \<and>
   place_block (World_init flat_rnd) (170, 780, Rect 160 717 38 83) ''dirt'' =
     Some (World_init flat_rnd) \<and>
   place_block (World_init flat_rnd) (170, 780, Rect 160 717 38 83) ''dirt'' \<noteq>
     Some (set_block 5 24 ''dirt'' (World_init flat_rnd))"
proof -
  let ?w = "World_init flat_rnd"
  let ?r = "Rect 160 717 38 83"
  have d: "(170::int) div BLOCK_SIZE = 5" "(780::int) div BLOCK_SIZE = 24"
    by (simp_all add: BLOCK_SIZE_def)
  have c: "centerx ?r div BLOCK_SIZE = 5" "centery ?r div BLOCK_SIZE = 23"
    by (simp_all add: centerx_def centery_def Rect_def BLOCK_SIZE_def)
  have e: "\<not> occupied ?w (5, 24)"
    by (simp add: occupied_def blocks_flat_world world_consts)
  have a: "has_adjacent_block ?w 5 24"
    by (simp add: has_adjacent_block_def adjacent_positions_def blocks_flat_world world_consts)
  have p: "would_collide_with_player 5 24 ?r"
    by (simp add: would_collide_with_player_def colliderect_def Rect_def BLOCK_SIZE_def)
  have f: "distance 5 24 5 23 \<le> 3"
    using too_far_iff [of 5 24 5 23] by (simp add: too_far_def)
  have s: "check_line_of_sight ?w (centerx ?r) (centery ?r)
      (5 * BLOCK_SIZE + BLOCK_SIZE div 2) (24 * BLOCK_SIZE + BLOCK_SIZE div 2) = Some True"
    by (simp add: check_line_of_sight_def centerx_def centery_def Rect_def BLOCK_SIZE_def)
  have 1: "place_block ?w (170, 780, ?r) ''dirt'' = Some ?w"
    using p by (simp add: place_block_eq d)
  have "blocks (set_block 5 24 ''dirt'' ?w) (5, 24) \<noteq> blocks ?w (5, 24)"
    using e by (simp add: blocks_set_block occupied_def)
  then have 2: "set_block 5 24 ''dirt'' ?w \<noteq> ?w"
    by auto
  show ?thesis using e a f s 1 2 by (simp add: d c)
qed

section \<open>Keys of the mapping and the surface height\<close>

lemma keys_in_domainD: "keys_in_domain w \<Longrightarrow> occupied w c \<Longrightarrow> in_domain c"
  unfolding keys_in_domain_def by blast

lemma keys_in_domainI: "(\<And>c. occupied w c \<Longrightarrow> in_domain c) \<Longrightarrow> keys_in_domain w"
  unfolding keys_in_domain_def by blast

lemma keys_in_domain_init: "keys_in_domain (World_init rnd)"
  by (rule keys_in_domainI) (simp add: occupied_def blocks_World_init is_border_def split: if_splits)

lemma keys_in_domain_break:
  assumes "keys_in_domain w" "break_block w pos player_pos = Some w'"
  shows "keys_in_domain w'"
proof (rule keys_in_domainI)
  fix c assume "occupied w' c"
  then have "occupied w c"
    using assms(2) by (auto simp: break_block_eq occupied_def blocks_del_block split: if_splits)
  then show "in_domain c" using assms(1) by (rule keys_in_domainD [rotated])
qed

lemma keys_in_domain_place:
  assumes "keys_in_domain w" "place_block w pos t = Some w'"
    "in_domain (fst pos div BLOCK_SIZE, fst (snd pos) div BLOCK_SIZE)"
  shows "keys_in_domain w'"
proof (rule keys_in_domainI)
  fix c assume "occupied w' c"
  then have "occupied w c \<or> c = (fst pos div BLOCK_SIZE, fst (snd pos) div BLOCK_SIZE)"
    using assms(2) by (auto simp: place_block_eq occupied_def blocks_set_block split: if_splits)
  then show "in_domain c" using assms(1,3) keys_in_domainD by blast
qed

lemma place_dirt_on_grass:
  "place_block (World_init flat_rnd) (170, 780, Rect 200 717 38 83) ''dirt'' =
     Some (set_block 5 24 ''dirt'' (World_init flat_rnd))"
proof -
  let ?w = "World_init flat_rnd"
  let ?r = "Rect 200 717 38 83"
  have d: "(170::int) div BLOCK_SIZE = 5" "(780::int) div BLOCK_SIZE = 24"
    by (simp_all add: BLOCK_SIZE_def)
  have c: "centerx ?r div BLOCK_SIZE = 6" "centery ?r div BLOCK_SIZE = 23"
    by (simp_all add: centerx_def centery_def Rect_def BLOCK_SIZE_def)
  have e: "blocks ?w (5, 24) = None"
    by (simp add: blocks_flat_world world_consts)
  have a: "has_adjacent_block ?w 5 24"
    by (simp add: has_adjacent_block_def adjacent_positions_def blocks_flat_world world_consts)
  have p: "\<not> would_collide_with_player 5 24 ?r"
    by (simp add: would_collide_with_player_def colliderect_def Rect_def BLOCK_SIZE_def)
  have f: "\<not> too_far 5 24 6 23"
    by (simp add: too_far_iff)
  have s: "check_line_of_sight ?w (centerx ?r) (centery ?r)
      (5 * BLOCK_SIZE + BLOCK_SIZE div 2) (24 * BLOCK_SIZE + BLOCK_SIZE div 2) = Some True"
    by (simp add: check_line_of_sight_def centerx_def centery_def Rect_def BLOCK_SIZE_def)
  show ?thesis
    using e a p f s by (simp add: place_block_eq d c cell_of_def)
qed

text \<open>
  Claim C1, as amended. After construction, and after any sequence of \<^verbatim>\<open>break_block\<close>
  calls and of \<^verbatim>\<open>place_block\<close> calls whose target cell lies in the world's rectangle,
  every key \<open>(x, y)\<close> of the block mapping satisfies \<open>0 \<le> x < WORLD_WIDTH\<close> and
  \<open>0 \<le> y < WORLD_HEIGHT\<close>. \<^verbatim>\<open>place_block\<close> itself does not compare its target cell with
  the world's bounds: the counterexample below is a call that inserts an entry one row
  above the world.
\<close>

theorem keys_stay_in_domain:
  "reachable_inside w \<Longrightarrow> occupied w c \<Longrightarrow> in_domain c"
proof -
  assume r: "reachable_inside w" and o: "occupied w c"
  from r have "keys_in_domain w"
    by (induction rule: reachable_inside.induct)
      (auto intro: keys_in_domain_init keys_in_domain_break keys_in_domain_place)
  then show "in_domain c" using o by (rule keys_in_domainD)
qed

theorem keys_stay_in_domain_witness:
  "reachable_inside (set_block 5 24 ''dirt'' (World_init flat_rnd)) \<and>
   occupied (set_block 5 24 ''dirt'' (World_init flat_rnd)) (5, 24) \<and>
   in_domain (5, 24)"
proof -
  have "in_domain ((170::int) div BLOCK_SIZE, (780::int) div BLOCK_SIZE)"
    by (simp add: world_consts)
  then have r: "reachable_inside (set_block 5 24 ''dirt'' (World_init flat_rnd))"
    using ri_place [OF ri_init [OF valid_flat_rnd] place_dirt_on_grass] by simp
  have o: "occupied (set_block 5 24 ''dirt'' (World_init flat_rnd)) (5, 24)"
    by (simp add: occupied_def blocks_set_block)
  from keys_stay_in_domain [OF r o] r o show ?thesis by simp
qed

lemma place_on_left_wall:
  "place_block (World_init flat_rnd) (16, - 16, Rect 40 (- 60) 38 83) ''dirt'' = Some ledge_world"
proof -
  let ?w = "World_init flat_rnd"
  let ?r = "Rect 40 (- 60) 38 83"
  have d: "(16::int) div BLOCK_SIZE = 0" "(- 16::int) div BLOCK_SIZE = - 1"
    by (simp_all add: BLOCK_SIZE_def)
  have c: "centerx ?r div BLOCK_SIZE = 1" "centery ?r div BLOCK_SIZE = - 1"
    by (simp_all add: centerx_def centery_def Rect_def BLOCK_SIZE_def)
  have e: "blocks ?w (0, - 1) = None"
    by (simp add: blocks_flat_world world_consts)
  have a: "has_adjacent_block ?w 0 (- 1)"
    by (simp add: has_adjacent_block_def adjacent_positions_def blocks_flat_world world_consts)
  have p: "\<not> would_collide_with_player 0 (- 1) ?r"
    by (simp add: would_collide_with_player_def colliderect_def Rect_def BLOCK_SIZE_def)
  have f: "\<not> too_far 0 (- 1) 1 (- 1)"
    by (simp add: too_far_iff)
  have s: "check_line_of_sight ?w (centerx ?r) (centery ?r)
      (0 * BLOCK_SIZE + BLOCK_SIZE div 2) (- 1 * BLOCK_SIZE + BLOCK_SIZE div 2) = Some True"
    by (simp add: check_line_of_sight_def centerx_def centery_def Rect_def BLOCK_SIZE_def)
  show ?thesis
    using e a p f s by (simp add: place_block_eq d c cell_of_def ledge_world_def)
qed

lemma reachable_ledge_world: "reachable ledge_world"
  using reach_place [OF reach_init [OF valid_flat_rnd] place_on_left_wall] .

lemma blocks_ledge_world:
  "blocks ledge_world k = (if k = (0, - 1) then Some (Block 0 (- 1) ''dirt'')
     else blocks (World_init flat_rnd) k)"
  by (simp add: ledge_world_def blocks_set_block)

theorem place_block_outside_domain_counterexample:
  "reachable ledge_world \<and>
   place_block (World_init flat_rnd) (16, - 16, Rect 40 (- 60) 38 83) ''dirt'' = Some ledge_world \<and>
   occupied ledge_world (0, - 1) \<and> \<not> in_domain (0, - 1)"
  using reachable_ledge_world place_on_left_wall
  by (simp add: occupied_def blocks_ledge_world in_domain_def)


lemma find_range1_Some:
  assumes "find P (range1 n) = Some y"
  shows "0 \<le> y \<and> y < n \<and> P y \<and> (\<forall>z. 0 \<le> z \<and> z < y \<longrightarrow> \<not> P z)"
proof -
  from assms obtain i where i: "i < length (range1 n)" "P (range1 n ! i)" "y = range1 n ! i"
    "\<forall>j<i. \<not> P (range1 n ! j)"
    unfolding find_Some_iff by blast
  have l: "i < nat n" using i(1) by (simp add: length_range1)
  then have y: "y = int i" using i(3) by (simp add: nth_range1)
  have "\<not> P z" if z: "0 \<le> z" "z < y" for z
  proof -
    have zi: "nat z < i" using z y by simp
    then have "nat z < nat n" using l by (rule less_trans)
    then have "range1 n ! nat z = z" using z by (simp add: nth_range1)
    with zi show ?thesis using i(4) by auto
  qed
  then show ?thesis using i(2,3) y l by auto
qed

lemma get_surface_height_first:
  assumes "0 \<le> b" "b < WORLD_HEIGHT" "occupied w (x, b)"
  shows "find (\<lambda>y. blocks w (x, y) \<noteq> None) (range1 WORLD_HEIGHT) = Some (get_surface_height w x) \<and>
         0 \<le> get_surface_height w x \<and> get_surface_height w x < WORLD_HEIGHT \<and>
         occupied w (x, get_surface_height w x) \<and>
         (\<forall>y. 0 \<le> y \<and> y < get_surface_height w x \<longrightarrow> \<not> occupied w (x, y))"
proof -
  have "b \<in> set (range1 WORLD_HEIGHT)" using assms(1,2) by (simp add: set_range1)
  then have "find (\<lambda>y. blocks w (x, y) \<noteq> None) (range1 WORLD_HEIGHT) \<noteq> None"
    using assms(3) by (auto simp: find_None_iff occupied_def)
  then obtain y where f: "find (\<lambda>y. blocks w (x, y) \<noteq> None) (range1 WORLD_HEIGHT) = Some y"
    by auto
  then have g: "get_surface_height w x = y"
    by (simp add: get_surface_height_def)
  from find_range1_Some [OF f] f g show ?thesis
    by (simp add: occupied_def)
qed

text \<open>
  Claim C10, as amended. In every reachable world state and for every column \<open>x\<close> with
  \<open>0 \<le> x < WORLD_WIDTH\<close>, the bottom cell of the column is occupied, the scan of
  \<^verbatim>\<open>get_surface_height\<close> finds a row (the fallback \<open>WORLD_HEIGHT div 2\<close> is not taken), and
  the result is the smallest row \<open>y\<close> with \<open>0 \<le> y < WORLD_HEIGHT\<close> whose cell \<open>(x, y)\<close> is
  occupied; it is the smallest occupied row of the column altogether when all keys lie in
  the world's rectangle. Rows above the world are not scanned: in the counterexample below
  the column has an occupied cell at \<open>y = -1\<close> and the result is 0.
\<close>

theorem surface_height_is_first_occupied_row:
  assumes "reachable w" "0 \<le> x" "x < WORLD_WIDTH"
  shows "occupied w (x, WORLD_HEIGHT - 1) \<and>
         find (\<lambda>y. blocks w (x, y) \<noteq> None) (range1 WORLD_HEIGHT) = Some (get_surface_height w x) \<and>
         0 \<le> get_surface_height w x \<and> get_surface_height w x < WORLD_HEIGHT \<and>
         occupied w (x, get_surface_height w x) \<and>
         (\<forall>y. 0 \<le> y \<and> y < get_surface_height w x \<longrightarrow> \<not> occupied w (x, y)) \<and>
         (keys_in_domain w \<longrightarrow> (\<forall>y. occupied w (x, y) \<longrightarrow> get_surface_height w x \<le> y))"
proof -
  have "is_border (x, WORLD_HEIGHT - 1)"
    using assms(2,3) by (simp add: is_border_def in_domain_def WORLD_HEIGHT_def)
  from border_invD [OF reachable_border_inv [OF assms(1)] this]
  have o: "occupied w (x, WORLD_HEIGHT - 1)"
    by (auto simp: occupied_def)
  have "0 \<le> WORLD_HEIGHT - 1" "WORLD_HEIGHT - 1 < WORLD_HEIGHT"
    by (simp_all add: WORLD_HEIGHT_def)
  note f = get_surface_height_first [OF this o]
  have "get_surface_height w x \<le> y" if k: "keys_in_domain w" and y: "occupied w (x, y)" for y
  proof -
    have "0 \<le> y" using keys_in_domainD [OF k y] by (simp add: in_domain_def)
    with f y show ?thesis by (meson not_le)
  qed
  with f o show ?thesis by simp
qed

theorem surface_height_witness:
  "reachable (World_init flat_rnd) \<and> occupied (World_init flat_rnd) (50, WORLD_HEIGHT - 1) \<and>
   get_surface_height (World_init flat_rnd) 50 = 25"
proof -
  let ?w = "World_init flat_rnd"
  have r: "reachable ?w" by (rule reach_init) (rule valid_flat_rnd)
  have x: "(0::int) \<le> 50" "50 < WORLD_WIDTH" by (simp_all add: WORLD_WIDTH_def)
  note t = surface_height_is_first_occupied_row [OF r x]
  let ?g = "get_surface_height ?w 50"
  have o: "occupied ?w (50, ?g)" and b: "0 \<le> ?g" "?g < WORLD_HEIGHT"
    and m: "\<forall>y. 0 \<le> y \<and> y < ?g \<longrightarrow> \<not> occupied ?w (50, y)"
    using t by simp_all
  have "25 \<le> ?g"
    using o b by (simp add: occupied_def blocks_flat_world world_consts split: if_splits)
  moreover have "occupied ?w (50, 25)"
    by (simp add: occupied_def blocks_flat_world world_consts)
  then have "\<not> 25 < ?g" using m by auto
  ultimately have "?g = 25" by simp
  then show ?thesis using r t by simp
qed

theorem surface_height_above_world_counterexample:
  "reachable ledge_world \<and> occupied ledge_world (0, - 1) \<and> get_surface_height ledge_world 0 = 0"
proof -
  have "range1 WORLD_HEIGHT = 0 # [1..WORLD_HEIGHT - 1]"
    by (simp add: range1_def WORLD_HEIGHT_def upto_rec1)
  then have "get_surface_height ledge_world 0 = 0"
    by (simp add: get_surface_height_def blocks_ledge_world blocks_flat_world world_consts)
  then show ?thesis
    using reachable_ledge_world by (simp add: occupied_def blocks_ledge_world)
qed

section \<open>Collision query\<close>

lemma set_range2: "set (range2 a b) = {a..<b}"
  by (auto simp: range2_def)

lemma check_collision_iff:
  "check_collision w r \<longleftrightarrow>
     (\<exists>x y b. max 0 (rect_left r div BLOCK_SIZE) \<le> x \<and>
              x < min WORLD_WIDTH (rect_right r div BLOCK_SIZE + 1) \<and>
              max 0 (rect_top r div BLOCK_SIZE) \<le> y \<and>
              y < min WORLD_HEIGHT (rect_bottom r div BLOCK_SIZE + 1) \<and>
              blocks w (x, y) = Some b \<and> colliderect r (block_rect b))"
proof -
  have P: "(case blocks w (x, y) of None \<Rightarrow> False | Some b \<Rightarrow> colliderect r (block_rect b)) \<longleftrightarrow>
      (\<exists>b. blocks w (x, y) = Some b \<and> colliderect r (block_rect b))" for x y
    by (simp split: option.splits)
  show ?thesis
    unfolding check_collision_def Let_def list_ex_iff set_range2 P
    by (simp only: Bex_def atLeastLessThan_iff) blast
qed

lemma blocks_at_cellsD:
  "blocks_at_cells w \<Longrightarrow> blocks w c = Some b \<Longrightarrow>
   block_rect b = Rect (fst c * BLOCK_SIZE) (snd c * BLOCK_SIZE) BLOCK_SIZE BLOCK_SIZE"
  unfolding blocks_at_cells_def by blast

lemma blocks_at_cellsI:
  "(\<And>c b. blocks w c = Some b \<Longrightarrow>
     block_rect b = Rect (fst c * BLOCK_SIZE) (snd c * BLOCK_SIZE) BLOCK_SIZE BLOCK_SIZE) \<Longrightarrow>
   blocks_at_cells w"
  unfolding blocks_at_cells_def by blast

lemma blocks_at_cells_init: "blocks_at_cells (World_init rnd)"
  by (rule blocks_at_cellsI)
    (auto simp: blocks_World_init terrain_at_def split: if_splits)

lemma blocks_at_cells_break:
  assumes "blocks_at_cells w" "break_block w pos player_pos = Some w'"
  shows "blocks_at_cells w'"
proof (rule blocks_at_cellsI)
  fix c b assume "blocks w' c = Some b"
  then have "blocks w c = Some b"
    using assms(2) by (auto simp: break_block_eq blocks_del_block split: if_splits)
  then show "block_rect b = Rect (fst c * BLOCK_SIZE) (snd c * BLOCK_SIZE) BLOCK_SIZE BLOCK_SIZE"
    using assms(1) by (rule blocks_at_cellsD [rotated])
qed

lemma blocks_at_cells_place:
  assumes "blocks_at_cells w" "place_block w pos t = Some w'"
  shows "blocks_at_cells w'"
proof (rule blocks_at_cellsI)
  fix c b assume "blocks w' c = Some b"
  then have "blocks w c = Some b \<or>
      (c = (fst pos div BLOCK_SIZE, fst (snd pos) div BLOCK_SIZE) \<and>
       b = Block (fst pos div BLOCK_SIZE) (fst (snd pos) div BLOCK_SIZE) t)"
    using assms(2) by (auto simp: place_block_eq blocks_set_block split: if_splits)
  then show "block_rect b = Rect (fst c * BLOCK_SIZE) (snd c * BLOCK_SIZE) BLOCK_SIZE BLOCK_SIZE"
    using blocks_at_cellsD [OF assms(1)] by auto
qed

lemma reachable_blocks_at_cells: "reachable w \<Longrightarrow> blocks_at_cells w"
  by (induction rule: reachable.induct)
    (auto intro: blocks_at_cells_init blocks_at_cells_break blocks_at_cells_place)

lemma collide_own_cell:
  assumes "in_domain (x, y)"
    "blocks w (x, y) = Some b"
    "block_rect b = Rect (x * BLOCK_SIZE) (y * BLOCK_SIZE) BLOCK_SIZE BLOCK_SIZE"
  shows "check_collision w (block_rect b)"
proof -
  let ?r = "block_rect b"
  have l: "rect_left ?r div BLOCK_SIZE = x" "rect_top ?r div BLOCK_SIZE = y"
    by (simp_all add: assms(3) rect_left_def rect_top_def Rect_def BLOCK_SIZE_def)
  have "rect_right ?r = (x + 1) * BLOCK_SIZE" "rect_bottom ?r = (y + 1) * BLOCK_SIZE"
    by (simp_all add: assms(3) rect_right_def rect_bottom_def Rect_def algebra_simps)
  then have u: "rect_right ?r div BLOCK_SIZE = x + 1" "rect_bottom ?r div BLOCK_SIZE = y + 1"
    by (simp_all add: BLOCK_SIZE_def)
  have c: "colliderect ?r ?r"
    by (simp add: assms(3) colliderect_def Rect_def BLOCK_SIZE_def)
  show ?thesis
    unfolding check_collision_iff l u
    using assms(1,2) c by (intro exI [of _ x] exI [of _ y] exI [of _ b]) (simp add: in_domain_def)
qed

text \<open>
  Claim C8, as amended. \<^verbatim>\<open>check_collision\<close> is true exactly when some occupied cell in the
  searched range (the cells overlapping the rectangle's bounding box, clamped to the world
  bounds) holds a block whose rectangle intersects the argument. So it is false for every
  rectangle that intersects no stored block's rectangle, and in a reachable world it is
  true for the block rectangle of every occupied cell inside the world's rectangle. An
  occupied cell outside the world's rectangle is never searched: the counterexample below
  is the block rectangle of such a cell, for which the result is false.
\<close>

theorem check_collision_result:
  "(check_collision w r \<longleftrightarrow>
     (\<exists>x y b. max 0 (rect_left r div BLOCK_SIZE) \<le> x \<and>
              x < min WORLD_WIDTH (rect_right r div BLOCK_SIZE + 1) \<and>
              max 0 (rect_top r div BLOCK_SIZE) \<le> y \<and>
              y < min WORLD_HEIGHT (rect_bottom r div BLOCK_SIZE + 1) \<and>
              blocks w (x, y) = Some b \<and> colliderect r (block_rect b))) \<and>
   ((\<forall>c b. blocks w c = Some b \<longrightarrow> \<not> colliderect r (block_rect b)) \<longrightarrow>
      \<not> check_collision w r) \<and>
   (reachable w \<and> in_domain c \<and> blocks w c = Some b' \<longrightarrow> check_collision w (block_rect b'))"
proof (intro conjI impI)
  show "check_collision w r \<longleftrightarrow>
     (\<exists>x y b. max 0 (rect_left r div BLOCK_SIZE) \<le> x \<and>
              x < min WORLD_WIDTH (rect_right r div BLOCK_SIZE + 1) \<and>
              max 0 (rect_top r div BLOCK_SIZE) \<le> y \<and>
              y < min WORLD_HEIGHT (rect_bottom r div BLOCK_SIZE + 1) \<and>
              blocks w (x, y) = Some b \<and> colliderect r (block_rect b))"
    by (rule check_collision_iff)
next
  assume "\<forall>c b. blocks w c = Some b \<longrightarrow> \<not> colliderect r (block_rect b)"
  then show "\<not> check_collision w r"
    unfolding check_collision_iff by blast
next
  assume a: "reachable w \<and> in_domain c \<and> blocks w c = Some b'"
  obtain x y where c: "c = (x, y)" by (cases c)
  have "block_rect b' = Rect (x * BLOCK_SIZE) (y * BLOCK_SIZE) BLOCK_SIZE BLOCK_SIZE"
    using blocks_at_cellsD [OF reachable_blocks_at_cells, of w c b'] a c by simp
  then show "check_collision w (block_rect b')"
    using a c by (intro collide_own_cell [of x y]) simp_all
qed

lemma flat_world_blocks_low:
  assumes "blocks (World_init flat_rnd) (x, y) = Some b"
  shows "block_rect b = Rect (x * BLOCK_SIZE) (y * BLOCK_SIZE) BLOCK_SIZE BLOCK_SIZE \<and>
         (x = 0 \<or> x = 99 \<or> 25 \<le> y)"
  using assms by (auto simp: blocks_flat_world world_consts split: if_splits)

theorem check_collision_result_witness:
  "\<not> (\<exists>c b. blocks (World_init flat_rnd) c = Some b \<and>
       colliderect (Rect 160 100 38 83) (block_rect b)) \<and>
   \<not> check_collision (World_init flat_rnd) (Rect 160 100 38 83) \<and>
   reachable (World_init flat_rnd) \<and> in_domain (5, 25) \<and>
   blocks (World_init flat_rnd) (5, 25) = Some (Block 5 25 ''grass'') \<and>
   check_collision (World_init flat_rnd) (block_rect (Block 5 25 ''grass''))"
proof -
  let ?w = "World_init flat_rnd"
  let ?r = "Rect 160 100 38 83"
  have h: "\<forall>c b. blocks ?w c = Some b \<longrightarrow> \<not> colliderect ?r (block_rect b)"
  proof (intro allI impI)
    fix c b assume b: "blocks ?w c = Some b"
    obtain x y where c: "c = (x, y)" by (cases c)
    from flat_world_blocks_low [of x y b] b c
    show "\<not> colliderect ?r (block_rect b)"
      by (auto simp: colliderect_def Rect_def BLOCK_SIZE_def)
  qed
  have r: "reachable ?w" by (rule reach_init) (rule valid_flat_rnd)
  have d: "in_domain (5, 25)" by (simp add: world_consts)
  have g: "blocks ?w (5, 25) = Some (Block 5 25 ''grass'')"
    by (simp add: blocks_flat_world world_consts)
  note t = check_collision_result [of ?w ?r "(5, 25)" "Block 5 25 ''grass''"]
  have 1: "\<not> check_collision ?w ?r" using t h by blast
  have 2: "check_collision ?w (block_rect (Block 5 25 ''grass''))"
    using check_collision_result [of ?w "Rect 0 0 0 0" "(5, 25)" "Block 5 25 ''grass''"] r d g
    by blast
  from h have "\<not> (\<exists>c b. blocks ?w c = Some b \<and> colliderect ?r (block_rect b))"
    by blast
  then show ?thesis using 1 2 r d g by blast
qed

theorem check_collision_outside_counterexample:
  "reachable ledge_world \<and>
   blocks ledge_world (0, - 1) = Some (Block 0 (- 1) ''dirt'') \<and>
   \<not> check_collision ledge_world (block_rect (Block 0 (- 1) ''dirt''))"
proof -
  let ?r = "block_rect (Block 0 (- 1) ''dirt'')"
  have b: "max 0 (rect_left ?r div BLOCK_SIZE) = 0"
    "min WORLD_WIDTH (rect_right ?r div BLOCK_SIZE + 1) = 2"
    "max 0 (rect_top ?r div BLOCK_SIZE) = 0"
    "min WORLD_HEIGHT (rect_bottom ?r div BLOCK_SIZE + 1) = 1"
    by (simp_all add: rect_left_def rect_right_def rect_top_def rect_bottom_def Rect_def
        world_consts)
  have "\<not> colliderect ?r (block_rect b)"
    if "0 \<le> x" "x < 2" "0 \<le> y" "y < 1" "blocks ledge_world (x, y) = Some b" for x y b
  proof -
    have "(x = 0 \<or> x = 1) \<and> y = 0" using that(1-4) by auto
    then show ?thesis
      using that(5)
      by (auto simp: blocks_ledge_world blocks_flat_world world_consts colliderect_def Rect_def)
  qed
  then have "\<not> check_collision ledge_world ?r"
    unfolding check_collision_iff b by blast
  then show ?thesis
    using reachable_ledge_world by (simp add: blocks_ledge_world)
qed

section \<open>What the line of sight tests\<close>

lemma walk_x_fst:
  "c \<in> set (walk_x n x y err dx dy step_x step_y) \<Longrightarrow> \<exists>k<n. fst c = x + int k * step_x"
proof (induction n arbitrary: x y err)
  case 0
  then show ?case by simp
next
  case (Suc n)
  show ?case
  proof (cases "c = (x, y)")
    case True
    then show ?thesis by (intro exI [of _ 0]) simp
  next
    case False
    with Suc.prems obtain y' err' where
      "c \<in> set (walk_x n (x + step_x) y' err' dx dy step_x step_y)"
      by (auto simp: Let_def split: if_splits)
    from Suc.IH [OF this] obtain k where "k < n" "fst c = x + step_x + int k * step_x"
      by auto
    then show ?thesis
      by (intro exI [of _ "Suc k"]) (simp add: algebra_simps)
  qed
qed

lemma walk_y_snd:
  "c \<in> set (walk_y n x y err dx dy step_x step_y) \<Longrightarrow> \<exists>k<n. snd c = y + int k * step_y"
proof (induction n arbitrary: x y err)
  case 0
  then show ?case by simp
next
  case (Suc n)
  show ?case
  proof (cases "c = (x, y)")
    case True
    then show ?thesis by (intro exI [of _ 0]) simp
  next
    case False
    with Suc.prems obtain x' err' where
      "c \<in> set (walk_y n x' (y + step_y) err' dx dy step_x step_y)"
      by (auto simp: Let_def split: if_splits)
    from Suc.IH [OF this] obtain k where "k < n" "snd c = y + step_y + int k * step_y"
      by auto
    then show ?thesis
      by (intro exI [of _ "Suc k"]) (simp add: algebra_simps)
  qed
qed

lemma walk_x_start: "0 < n \<Longrightarrow> (x, y) \<in> set (walk_x n x y err dx dy step_x step_y)"
  by (cases n) simp_all

lemma walk_y_start: "0 < n \<Longrightarrow> (x, y) \<in> set (walk_y n x y err dx dy step_x step_y)"
  by (cases n) simp_all

lemma los_cells_start:
  assumes "\<not> chebyshev_adjacent a b"
  shows "a \<in> set (los_cells a b)"
proof -
  have "0 < nat \<bar>fst b - fst a\<bar> \<or> 0 < nat \<bar>snd b - snd a\<bar>"
    using assms by (auto simp: chebyshev_adjacent_def)
  then show ?thesis
    using walk_x_start [of "nat \<bar>fst b - fst a\<bar>" "fst a" "snd a"]
      walk_y_start [of "nat \<bar>snd b - snd a\<bar>" "fst a" "snd a"]
    by (auto simp: los_cells_def Let_def)
qed

lemma los_cells_end: "b \<notin> set (los_cells a b)"
proof
  assume b: "b \<in> set (los_cells a b)"
  let ?sx = "if fst a < fst b then 1 else - 1 :: int"
  let ?sy = "if snd a < snd b then 1 else - 1 :: int"
  show False
  proof (cases "\<bar>fst b - fst a\<bar> > \<bar>snd b - snd a\<bar>")
    case True
    then have "los_cells a b = walk_x (nat \<bar>fst b - fst a\<bar>) (fst a) (snd a)
        (of_int \<bar>fst b - fst a\<bar> / 2) \<bar>fst b - fst a\<bar> \<bar>snd b - snd a\<bar> ?sx ?sy"
      unfolding los_cells_def Let_def by (simp only: if_True)
    with b have "b \<in> set (walk_x (nat \<bar>fst b - fst a\<bar>) (fst a) (snd a)
        (of_int \<bar>fst b - fst a\<bar> / 2) \<bar>fst b - fst a\<bar> \<bar>snd b - snd a\<bar> ?sx ?sy)"
      by simp
    from walk_x_fst [OF this]
    obtain k where k: "k < nat \<bar>fst b - fst a\<bar>" "fst b = fst a + int k * ?sx"
      by blast
    then show False by (auto split: if_splits)
  next
    case False
    then have "los_cells a b = walk_y (nat \<bar>snd b - snd a\<bar>) (fst a) (snd a)
        (of_int \<bar>snd b - snd a\<bar> / 2) \<bar>fst b - fst a\<bar> \<bar>snd b - snd a\<bar> ?sx ?sy"
      unfolding los_cells_def Let_def by (simp only: if_False)
    with b have "b \<in> set (walk_y (nat \<bar>snd b - snd a\<bar>) (fst a) (snd a)
        (of_int \<bar>snd b - snd a\<bar> / 2) \<bar>fst b - fst a\<bar> \<bar>snd b - snd a\<bar> ?sx ?sy)"
      by simp
    from walk_y_snd [OF this]
    obtain k where k: "k < nat \<bar>snd b - snd a\<bar>" "snd b = snd a + int k * ?sy"
      by blast
    then show False by (auto split: if_splits)
  qed
qed

text \<open>
  Claim C3, as amended. \<^verbatim>\<open>check_line_of_sight\<close> always returns. It converts both points to
  grid cells and returns true when the two cells are within Chebyshev distance 1. Otherwise
  it returns false iff some cell of the stepping walk is occupied. The walk contains the
  start cell and never the destination cell: an occupied start cell makes the result false,
  the destination cell is not tested.
\<close>

theorem line_of_sight_result:
  "check_line_of_sight w start_x start_y end_x end_y =
     Some (chebyshev_adjacent (cell_of (start_x, start_y)) (cell_of (end_x, end_y)) \<or>
           (\<forall>c \<in> set (los_cells (cell_of (start_x, start_y)) (cell_of (end_x, end_y))).
              \<not> occupied w c)) \<and>
   cell_of (end_x, end_y) \<notin> set (los_cells (cell_of (start_x, start_y)) (cell_of (end_x, end_y))) \<and>
   (\<not> chebyshev_adjacent (cell_of (start_x, start_y)) (cell_of (end_x, end_y)) \<longrightarrow>
      cell_of (start_x, start_y) \<in>
        set (los_cells (cell_of (start_x, start_y)) (cell_of (end_x, end_y))) \<and>
      (occupied w (cell_of (start_x, start_y)) \<longrightarrow>
         check_line_of_sight w start_x start_y end_x end_y = Some False))"
proof -
  let ?a = "cell_of (start_x, start_y)" and ?b = "cell_of (end_x, end_y)"
  have 1: "check_line_of_sight w start_x start_y end_x end_y =
     Some (chebyshev_adjacent ?a ?b \<or> (\<forall>c \<in> set (los_cells ?a ?b). \<not> occupied w c))"
    by (simp add: check_line_of_sight_cells list_all_iff occupied_def)
  have 2: "?b \<notin> set (los_cells ?a ?b)" by (rule los_cells_end)
  have 3: "?a \<in> set (los_cells ?a ?b)" if "\<not> chebyshev_adjacent ?a ?b"
    using that by (rule los_cells_start)
  have 4: "check_line_of_sight w start_x start_y end_x end_y = Some False"
    if "\<not> chebyshev_adjacent ?a ?b" "occupied w ?a"
    using 3 [OF that(1)] that unfolding 1 by blast
  from 1 2 3 4 show ?thesis by blast
qed

lemma los_cells_0_2: "los_cells (0, 0) (2, 0) = [(0, 0), (1, 0)]"
  by (simp add: los_cells_def eval_nat_numeral)

theorem line_of_sight_result_witness:
  "\<not> chebyshev_adjacent (cell_of (16, 16)) (cell_of (80, 16)) \<and>
   occupied (World_init flat_rnd) (cell_of (16, 16)) \<and>
   cell_of (16, 16) \<in> set (los_cells (cell_of (16, 16)) (cell_of (80, 16))) \<and>
   check_line_of_sight (World_init flat_rnd) 16 16 80 16 = Some False"
proof -
  have c: "cell_of (16, 16) = (0, 0)" "cell_of (80, 16) = (2, 0)"
    by (simp_all add: cell_of_def BLOCK_SIZE_def)
  have n: "\<not> chebyshev_adjacent (cell_of (16, 16)) (cell_of (80, 16))"
    by (simp add: c chebyshev_adjacent_def)
  have o: "occupied (World_init flat_rnd) (cell_of (16, 16))"
    by (simp add: c occupied_def blocks_flat_world world_consts)
  from line_of_sight_result [of "World_init flat_rnd" 16 16 80 16] n o
  show ?thesis by blast
qed

theorem line_of_sight_start_cell_counterexample:
  "cell_of (16, 16) = (0, 0) \<and> cell_of (80, 16) = (2, 0) \<and>
   los_cells (0, 0) (2, 0) = [(0, 0), (1, 0)] \<and>
   occupied (World_init flat_rnd) (0, 0) \<and>
   \<not> occupied (World_init flat_rnd) (1, 0) \<and>
   \<not> occupied (World_init flat_rnd) (2, 0) \<and>
   check_line_of_sight (World_init flat_rnd) 16 16 80 16 = Some False"
proof -
  have c: "cell_of (16, 16) = (0, 0)" "cell_of (80, 16) = (2, 0)"
    by (simp_all add: cell_of_def BLOCK_SIZE_def)
  have o: "occupied (World_init flat_rnd) (0, 0)" "\<not> occupied (World_init flat_rnd) (1, 0)"
    "\<not> occupied (World_init flat_rnd) (2, 0)"
    by (simp_all add: occupied_def blocks_flat_world world_consts)
  have "check_line_of_sight (World_init flat_rnd) 16 16 80 16 = Some False"
    using o by (simp add: check_line_of_sight_cells c los_cells_0_2 chebyshev_adjacent_def
        occupied_def)
  then show ?thesis using c o los_cells_0_2 by simp
qed

section \<open>Direction of the line of sight\<close>

subsection \<open>The closed form of the walk\<close>

lemma length_walk_x [simp]: "length (walk_x n x y err dx dy step_x step_y) = n"
  by (induction n arbitrary: x y err) (simp_all add: Let_def)

lemma length_walk_y [simp]: "length (walk_y n x y err dx dy step_x step_y) = n"
  by (induction n arbitrary: x y err) (simp_all add: Let_def)

lemma ceiling_start:
  fixes err d :: real
  assumes "0 \<le> err" "err < d"
  shows "\<lceil>(0 - err) / d\<rceil> = 0"
proof (rule ceiling_unique)
  have d: "0 < d" using assms by simp
  show "of_int 0 - 1 < (0 - err) / d"
    using assms d by (simp add: field_simps)
  show "(0 - err) / d \<le> of_int 0"
    using assms d by (simp add: field_simps)
qed

lemma walk_x_nth:
  assumes "0 \<le> err" "err < of_int dx" "0 \<le> dy" "dy \<le> dx" "i < n"
  shows "walk_x n x y err dx dy step_x step_y ! i =
     (x + int i * step_x, y + \<lceil>(of_int (int i * dy) - err) / of_int dx\<rceil> * step_y)"
  using assms
proof (induction n arbitrary: x y err i)
  case 0
  then show ?case by simp
next
  case (Suc n)
  have dx: "0 < (of_int dx :: real)" using Suc.prems(1,2) by simp
  show ?case
  proof (cases i)
    case 0
    then show ?thesis
      using ceiling_start [OF Suc.prems(1,2)] by simp
  next
    case (Suc j)
    then have j: "j < n" using Suc.prems(5) by simp
    show ?thesis
    proof (cases "err - of_int dy < 0")
      case True
      let ?e = "err - of_int dy + of_int dx"
      have e: "0 \<le> ?e" "?e < of_int dx"
        using True Suc.prems(1,4) by simp_all
      have c: "(of_int (int j * dy) - ?e) / of_int dx =
          (of_int (int (Suc j) * dy) - err) / of_int dx - 1"
        using dx by (simp add: field_simps)
      define C where "C = \<lceil>(of_int (int (Suc j) * dy) - err) / of_int dx\<rceil>"
      have cc: "\<lceil>(of_int (int j * dy) - ?e) / of_int dx\<rceil> = C - 1"
        unfolding C_def by (simp only: c ceiling_diff_one)
      have u: "walk_x (Suc n) x y err dx dy step_x step_y ! Suc j =
          walk_x n (x + step_x) (y + step_y) ?e dx dy step_x step_y ! j"
        using True by (simp add: Let_def)
      show ?thesis
        unfolding Suc u Suc.IH [OF e Suc.prems(3,4) j] cc C_def [symmetric]
        by (simp add: algebra_simps)
    next
      case False
      let ?e = "err - of_int dy"
      have e: "0 \<le> ?e" "?e < of_int dx"
        using False Suc.prems(2,3) by simp_all
      have c: "(of_int (int j * dy) - ?e) / of_int dx =
          (of_int (int (Suc j) * dy) - err) / of_int dx"
        by (simp add: field_simps)
      define C where "C = \<lceil>(of_int (int (Suc j) * dy) - err) / of_int dx\<rceil>"
      have cc: "\<lceil>(of_int (int j * dy) - ?e) / of_int dx\<rceil> = C"
        unfolding C_def by (simp only: c)
      have u: "walk_x (Suc n) x y err dx dy step_x step_y ! Suc j =
          walk_x n (x + step_x) y ?e dx dy step_x step_y ! j"
        using False by (simp add: Let_def)
      show ?thesis
        unfolding \<open>i = Suc j\<close> u Suc.IH [OF e Suc.prems(3,4) j] cc C_def [symmetric]
        by (simp add: algebra_simps)
    qed
  qed
qed

lemma walk_y_nth:
  assumes "0 \<le> err" "err < of_int dy" "0 \<le> dx" "dx \<le> dy" "i < n"
  shows "walk_y n x y err dx dy step_x step_y ! i =
     (x + \<lceil>(of_int (int i * dx) - err) / of_int dy\<rceil> * step_x, y + int i * step_y)"
  using assms
proof (induction n arbitrary: x y err i)
  case 0
  then show ?case by simp
next
  case (Suc n)
  have dy: "0 < (of_int dy :: real)" using Suc.prems(1,2) by simp
  show ?case
  proof (cases i)
    case 0
    then show ?thesis
      using ceiling_start [OF Suc.prems(1,2)] by simp
  next
    case (Suc j)
    then have j: "j < n" using Suc.prems(5) by simp
    show ?thesis
    proof (cases "err - of_int dx < 0")
      case True
      let ?e = "err - of_int dx + of_int dy"
      have e: "0 \<le> ?e" "?e < of_int dy"
        using True Suc.prems(1,4) by simp_all
      have c: "(of_int (int j * dx) - ?e) / of_int dy =
          (of_int (int (Suc j) * dx) - err) / of_int dy - 1"
        using dy by (simp add: field_simps)
      define C where "C = \<lceil>(of_int (int (Suc j) * dx) - err) / of_int dy\<rceil>"
      have cc: "\<lceil>(of_int (int j * dx) - ?e) / of_int dy\<rceil> = C - 1"
        unfolding C_def by (simp only: c ceiling_diff_one)
      have u: "walk_y (Suc n) x y err dx dy step_x step_y ! Suc j =
          walk_y n (x + step_x) (y + step_y) ?e dx dy step_x step_y ! j"
        using True by (simp add: Let_def)
      show ?thesis
        unfolding Suc u Suc.IH [OF e Suc.prems(3,4) j] cc C_def [symmetric]
        by (simp add: algebra_simps)
    next
      case False
      let ?e = "err - of_int dx"
      have e: "0 \<le> ?e" "?e < of_int dy"
        using False Suc.prems(2,3) by simp_all
      have c: "(of_int (int j * dx) - ?e) / of_int dy =
          (of_int (int (Suc j) * dx) - err) / of_int dy"
        by (simp add: field_simps)
      define C where "C = \<lceil>(of_int (int (Suc j) * dx) - err) / of_int dy\<rceil>"
      have cc: "\<lceil>(of_int (int j * dx) - ?e) / of_int dy\<rceil> = C"
        unfolding C_def by (simp only: c)
      have u: "walk_y (Suc n) x y err dx dy step_x step_y ! Suc j =
          walk_y n x (y + step_y) ?e dx dy step_x step_y ! j"
        using False by (simp add: Let_def)
      show ?thesis
        unfolding \<open>i = Suc j\<close> u Suc.IH [OF e Suc.prems(3,4) j] cc C_def [symmetric]
        by (simp add: algebra_simps)
    qed
  qed
qed

subsection \<open>Reversing a line\<close>

lemma minor_steps_reverse:
  assumes n: "0 < n"
  shows "minor_steps n m k + minor_steps n m (n - k) = (if tie_at n m k then m - 1 else m)"
proof -
  define u :: real where "u = (of_int (k * m) - of_int n / 2) / of_int n"
  have n': "0 < (of_int n :: real)" using n by simp
  have r: "(of_int ((n - k) * m) - of_int n / 2) / (of_int n :: real) = of_int (m - 1) - u"
    using n' by (simp add: u_def field_simps)
  have "\<lceil>of_int (m - 1) - u\<rceil> = \<lceil>- u + of_int (m - 1)\<rceil>"
    by (simp only: add.commute [of "- u"] diff_conv_add_uminus)
  also have "\<dots> = - \<lfloor>u\<rfloor> + (m - 1)"
    by (simp only: ceiling_add_of_int ceiling_minus)
  finally have s: "minor_steps n m k + minor_steps n m (n - k) = \<lceil>u\<rceil> - \<lfloor>u\<rfloor> + (m - 1)"
    unfolding minor_steps_def r u_def [symmetric] by simp
  have t: "tie_at n m k \<longleftrightarrow> u = of_int \<lfloor>u\<rfloor>"
  proof
    assume "tie_at n m k"
    then obtain z where z: "2 * k * m - n = 2 * n * z" by (auto simp: tie_at_def)
    then have "(of_int (2 * k * m - n) :: real) = of_int (2 * n * z)" by simp
    then have "u = of_int z" using n' by (simp add: u_def field_simps)
    then show "u = of_int \<lfloor>u\<rfloor>" by simp
  next
    assume "u = of_int \<lfloor>u\<rfloor>"
    then have "(of_int (2 * k * m - n) :: real) = of_int (2 * n * \<lfloor>u\<rfloor>)"
      using n' by (simp add: u_def field_simps)
    then have "2 * k * m - n = 2 * n * \<lfloor>u\<rfloor>" by (simp only: of_int_eq_iff)
    then show "tie_at n m k" by (simp add: tie_at_def)
  qed
  show ?thesis
    unfolding s t by (simp add: ceiling_altdef)
qed


lemma minor_steps_0: "0 < n \<Longrightarrow> minor_steps n m 0 = 0"
  using ceiling_start [of "of_int n / 2" "of_int n"] by (simp add: minor_steps_def)

lemma minor_steps_flat: "0 < n \<Longrightarrow> minor_steps n 0 k = 0"
  using ceiling_start [of "of_int n / 2" "of_int n"] by (simp add: minor_steps_def)

lemma length_los_cells:
  "length (los_cells a b) = nat (max \<bar>fst b - fst a\<bar> \<bar>snd b - snd a\<bar>)"
  by (simp add: los_cells_def Let_def max_def)

lemma los_cells_nth:
  assumes "k < length (los_cells a b)"
  shows "los_cells a b ! k = line_cell a b (int k)"
proof -
  let ?dx = "\<bar>fst b - fst a\<bar>" and ?dy = "\<bar>snd b - snd a\<bar>"
  show ?thesis
  proof (cases "?dx > ?dy")
    case True
    then have k: "k < nat ?dx" using assms by (simp add: length_los_cells max_def)
    have e: "(0::real) \<le> of_int ?dx / 2" "of_int ?dx / 2 < (of_int ?dx :: real)"
      using True by simp_all
    have d: "0 \<le> ?dy" "?dy \<le> ?dx" using True by simp_all
    show ?thesis
      using True walk_x_nth [OF e d k]
      by (simp add: los_cells_def line_cell_def Let_def minor_steps_def)
  next
    case False
    then have k: "k < nat ?dy" using assms by (simp add: length_los_cells max_def)
    then have p: "0 < ?dy" by linarith
    have e: "(0::real) \<le> of_int ?dy / 2" "of_int ?dy / 2 < (of_int ?dy :: real)"
      using p by simp_all
    have d: "0 \<le> ?dx" "?dx \<le> ?dy" using False by simp_all
    show ?thesis
      using False walk_y_nth [OF e d k]
      by (simp add: los_cells_def line_cell_def Let_def minor_steps_def)
  qed
qed

lemma line_cell_0:
  assumes "a \<noteq> b"
  shows "line_cell a b 0 = a"
proof -
  have "0 < \<bar>fst b - fst a\<bar> \<or> 0 < \<bar>snd b - snd a\<bar>"
    using assms by (auto simp: prod_eq_iff)
  then show ?thesis
    by (auto simp: line_cell_def Let_def minor_steps_0)
qed

lemma has_tie_sym: "has_tie a b \<longleftrightarrow> has_tie b a"
  by (simp add: has_tie_def abs_minus_commute)

lemma no_tie_flat: "0 < n \<Longrightarrow> \<not> tie_at n 0 k"
proof
  assume n: "0 < n" and "tie_at n 0 k"
  then have "2 * n dvd n" by (simp add: tie_at_def)
  then have "2 * n \<le> n" using n by (intro zdvd_imp_le)
  then show False using n by simp
qed

lemma line_cell_reverse_x:
  fixes ax ay bx by' k :: int
  defines "n \<equiv> \<bar>bx - ax\<bar>" and "m \<equiv> \<bar>by' - ay\<bar>"
  defines "sy \<equiv> (if ay < by' then 1 else - 1 :: int)"
  assumes d: "m < n" and k: "0 < k" "k < n"
  shows "line_cell (bx, by') (ax, ay) (n - k) =
     (fst (line_cell (ax, ay) (bx, by') k),
      snd (line_cell (ax, ay) (bx, by') k) + (if tie_at n m k then sy else 0))"
proof -
  define c where "c = minor_steps n m k"
  define c' where "c' = minor_steps n m (n - k)"
  have n: "0 < n" using k by simp
  have s: "c + c' = (if tie_at n m k then m - 1 else m)"
    using minor_steps_reverse [OF n, of m k] by (simp add: c_def c'_def)
  have f: "line_cell (ax, ay) (bx, by') k = (ax + k * (if ax < bx then 1 else - 1), ay + c * sy)"
    using d by (simp add: line_cell_def Let_def n_def m_def c_def sy_def)
  have ab: "\<bar>ax - bx\<bar> = n" "\<bar>ay - by'\<bar> = m" by (simp_all add: n_def m_def)
  have g: "line_cell (bx, by') (ax, ay) (n - k) =
      (bx + (n - k) * (if bx < ax then 1 else - 1), by' + c' * (if by' < ay then 1 else - 1))"
    using d by (simp add: line_cell_def Let_def ab c'_def)
  have X: "bx + (n - k) * (if bx < ax then 1 else - 1) = ax + k * (if ax < bx then 1 else - 1)"
    using n by (auto simp: n_def)
  have Y: "by' + c' * (if by' < ay then 1 else - 1) = ay + c * sy + (if tie_at n m k then sy else 0)"
  proof (cases "ay = by'")
    case True
    then have "m = 0" by (simp add: m_def)
    then have "c = 0" "c' = 0" "\<not> tie_at n m k"
      using n by (simp_all add: c_def c'_def minor_steps_flat no_tie_flat)
    then show ?thesis using True by simp
  next
    case False
    then consider "ay < by'" | "by' < ay" by linarith
    then show ?thesis
    proof cases
      case 1
      then have "m = by' - ay" by (simp add: m_def)
      with s 1 show ?thesis by (simp add: sy_def split: if_splits)
    next
      case 2
      then have "m = ay - by'" by (simp add: m_def)
      with s 2 show ?thesis by (simp add: sy_def split: if_splits)
    qed
  qed
  show ?thesis by (simp only: f g X Y fst_conv snd_conv)
qed

lemma line_cell_reverse_y:
  fixes ax ay bx by' k :: int
  defines "n \<equiv> \<bar>by' - ay\<bar>" and "m \<equiv> \<bar>bx - ax\<bar>"
  defines "sx \<equiv> (if ax < bx then 1 else - 1 :: int)"
  assumes d: "m \<le> n" and k: "0 < k" "k < n"
  shows "line_cell (bx, by') (ax, ay) (n - k) =
     (fst (line_cell (ax, ay) (bx, by') k) + (if tie_at n m k then sx else 0),
      snd (line_cell (ax, ay) (bx, by') k))"
proof -
  define c where "c = minor_steps n m k"
  define c' where "c' = minor_steps n m (n - k)"
  have n: "0 < n" using k by simp
  have s: "c + c' = (if tie_at n m k then m - 1 else m)"
    using minor_steps_reverse [OF n, of m k] by (simp add: c_def c'_def)
  have f: "line_cell (ax, ay) (bx, by') k = (ax + c * sx, ay + k * (if ay < by' then 1 else - 1))"
    using d by (simp add: line_cell_def Let_def n_def m_def c_def sx_def)
  have ab: "\<bar>ax - bx\<bar> = m" "\<bar>ay - by'\<bar> = n" by (simp_all add: n_def m_def)
  have g: "line_cell (bx, by') (ax, ay) (n - k) =
      (bx + c' * (if bx < ax then 1 else - 1), by' + (n - k) * (if by' < ay then 1 else - 1))"
    using d by (simp add: line_cell_def Let_def ab c'_def)
  have Y: "by' + (n - k) * (if by' < ay then 1 else - 1) = ay + k * (if ay < by' then 1 else - 1)"
    using n by (auto simp: n_def)
  have X: "bx + c' * (if bx < ax then 1 else - 1) = ax + c * sx + (if tie_at n m k then sx else 0)"
  proof (cases "ax = bx")
    case True
    then have "m = 0" by (simp add: m_def)
    then have "c = 0" "c' = 0" "\<not> tie_at n m k"
      using n by (simp_all add: c_def c'_def minor_steps_flat no_tie_flat)
    then show ?thesis using True by simp
  next
    case False
    then consider "ax < bx" | "bx < ax" by linarith
    then show ?thesis
    proof cases
      case 1
      then have "m = bx - ax" by (simp add: m_def)
      with s 1 show ?thesis by (simp add: sx_def split: if_splits)
    next
      case 2
      then have "m = ax - bx" by (simp add: m_def)
      with s 2 show ?thesis by (simp add: sx_def split: if_splits)
    qed
  qed
  show ?thesis by (simp only: f g X Y fst_conv snd_conv)
qed


lemma line_cell_major_x:
  "\<bar>snd b - snd a\<bar> < \<bar>fst b - fst a\<bar> \<Longrightarrow>
   fst (line_cell a b k) = fst a + k * (if fst a < fst b then 1 else - 1)"
  by (simp add: line_cell_def Let_def)

lemma line_cell_major_y:
  "\<not> \<bar>snd b - snd a\<bar> < \<bar>fst b - fst a\<bar> \<Longrightarrow>
   snd (line_cell a b k) = snd a + k * (if snd a < snd b then 1 else - 1)"
  by (simp add: line_cell_def Let_def)

lemma line_cell_reverse:
  fixes a b :: "int \<times> int"
  defines "n \<equiv> max \<bar>fst b - fst a\<bar> \<bar>snd b - snd a\<bar>"
    and "m \<equiv> min \<bar>fst b - fst a\<bar> \<bar>snd b - snd a\<bar>"
  assumes k: "0 < k" "k < n"
  shows "\<not> tie_at n m k \<Longrightarrow> line_cell b a (n - k) = line_cell a b k"
    and "tie_at n m k \<Longrightarrow> 0 \<le> j \<Longrightarrow> j < n \<Longrightarrow> line_cell b a j \<noteq> line_cell a b k"
proof -
  obtain ax ay where a: "a = (ax, ay)" by (cases a)
  obtain bx by' where b: "b = (bx, by')" by (cases b)
  show "line_cell b a (n - k) = line_cell a b k" if "\<not> tie_at n m k"
  proof (cases "\<bar>by' - ay\<bar> < \<bar>bx - ax\<bar>")
    case True
    then have nm: "n = \<bar>bx - ax\<bar>" "m = \<bar>by' - ay\<bar>" by (simp_all add: n_def m_def a b)
    show ?thesis
      using line_cell_reverse_x [OF True, of k] k that by (simp add: a b nm)
  next
    case False
    then have nm: "n = \<bar>by' - ay\<bar>" "m = \<bar>bx - ax\<bar>" by (simp_all add: n_def m_def a b)
    have "\<bar>bx - ax\<bar> \<le> \<bar>by' - ay\<bar>" using False by simp
    from line_cell_reverse_y [OF this, of k] k that show ?thesis by (simp add: a b nm)
  qed
  show "line_cell b a j \<noteq> line_cell a b k" if t: "tie_at n m k" and j: "0 \<le> j" "j < n"
  proof
    assume e: "line_cell b a j = line_cell a b k"
    show False
    proof (cases "\<bar>by' - ay\<bar> < \<bar>bx - ax\<bar>")
      case True
      then have nm: "n = \<bar>bx - ax\<bar>" "m = \<bar>by' - ay\<bar>" by (simp_all add: n_def m_def a b)
      have "\<bar>snd a - snd b\<bar> < \<bar>fst a - fst b\<bar>" using True by (simp add: a b)
      from line_cell_major_x [OF this, of j]
      have 1: "fst (line_cell b a j) = bx + j * (if bx < ax then 1 else - 1)" by (simp add: a b)
      have "\<bar>snd b - snd a\<bar> < \<bar>fst b - fst a\<bar>" using True by (simp add: a b)
      from line_cell_major_x [OF this, of k]
      have 2: "fst (line_cell a b k) = ax + k * (if ax < bx then 1 else - 1)" by (simp add: a b)
      have "j = n - k" using e 1 2 k j by (auto simp: nm split: if_splits)
      with e line_cell_reverse_x [OF True, of k] k t show False
        by (simp add: a b nm prod_eq_iff split: if_splits)
    next
      case False
      then have nm: "n = \<bar>by' - ay\<bar>" "m = \<bar>bx - ax\<bar>" by (simp_all add: n_def m_def a b)
      have "\<not> \<bar>snd a - snd b\<bar> < \<bar>fst a - fst b\<bar>" using False by (simp add: a b)
      from line_cell_major_y [OF this, of j]
      have 1: "snd (line_cell b a j) = by' + j * (if by' < ay then 1 else - 1)" by (simp add: a b)
      have "\<not> \<bar>snd b - snd a\<bar> < \<bar>fst b - fst a\<bar>" using False by (simp add: a b)
      from line_cell_major_y [OF this, of k]
      have 2: "snd (line_cell a b k) = ay + k * (if ay < by' then 1 else - 1)" by (simp add: a b)
      have "j = n - k" using e 1 2 k j by (auto simp: nm split: if_splits)
      have "\<bar>bx - ax\<bar> \<le> \<bar>by' - ay\<bar>" using False by simp
      from line_cell_reverse_y [OF this, of k] k t e \<open>j = n - k\<close> show False
        by (simp add: a b nm prod_eq_iff split: if_splits)
    qed
  qed
qed

lemma los_cells_clear_reverse:
  assumes t: "\<not> has_tie a b" and b: "P b" and f: "list_all P (los_cells a b)"
  shows "list_all P (los_cells b a)"
  unfolding list_all_length
proof (intro allI impI)
  let ?n = "max \<bar>fst b - fst a\<bar> \<bar>snd b - snd a\<bar>"
  let ?m = "min \<bar>fst b - fst a\<bar> \<bar>snd b - snd a\<bar>"
  fix j assume j: "j < length (los_cells b a)"
  then have jn: "int j < ?n" by (simp add: length_los_cells abs_minus_commute)
  then have ne: "b \<noteq> a" by auto
  show "P (los_cells b a ! j)"
  proof (cases j)
    case 0
    then show ?thesis
      using j b line_cell_0 [OF ne] by (simp add: los_cells_nth)
  next
    case (Suc i)
    let ?k = "?n - int j"
    have k: "0 < ?k" "?k < ?n" using jn Suc by simp_all
    then have "\<not> tie_at ?n ?m ?k"
      using t by (auto simp: has_tie_def Let_def)
    from line_cell_reverse(1) [OF k this]
    have r: "line_cell b a (int j) = line_cell a b ?k" by simp
    have lk: "nat ?k < length (los_cells a b)" using k by (simp add: length_los_cells)
    then have "P (los_cells a b ! nat ?k)"
      using f unfolding list_all_length by blast
    moreover have "los_cells a b ! nat ?k = line_cell a b ?k"
      using los_cells_nth [OF lk] k by simp
    ultimately have "P (line_cell b a (int j))" using r by simp
    then show ?thesis
      using j by (simp add: los_cells_nth)
  qed
qed

lemma los_cells_clear_sym:
  assumes "\<not> has_tie a b" "P a" "P b"
  shows "list_all P (los_cells a b) \<longleftrightarrow> list_all P (los_cells b a)"
  using los_cells_clear_reverse [of a b P] los_cells_clear_reverse [of b a P] assms
    has_tie_sym [of a b] by blast

lemma no_tie_diagonal: "0 < n \<Longrightarrow> \<not> tie_at n n k"
proof
  assume n: "0 < n" and "tie_at n n k"
  then obtain z where "2 * k * n - n = 2 * n * z" by (auto simp: tie_at_def)
  then have "n * (2 * k - 1) = n * (2 * z)" by (simp add: algebra_simps)
  then have "2 * k - 1 = 2 * z" using n by simp
  then show False by presburger
qed

lemma no_tie_axis_or_diagonal:
  assumes "fst a = fst b \<or> snd a = snd b \<or> \<bar>fst b - fst a\<bar> = \<bar>snd b - snd a\<bar>"
  shows "\<not> has_tie a b"
proof
  let ?n = "max \<bar>fst b - fst a\<bar> \<bar>snd b - snd a\<bar>"
  let ?m = "min \<bar>fst b - fst a\<bar> \<bar>snd b - snd a\<bar>"
  assume "has_tie a b"
  then obtain k where k: "1 \<le> k" "k < ?n" "tie_at ?n ?m k"
    by (auto simp: has_tie_def Let_def)
  then have n: "0 < ?n" by linarith
  from assms consider "?m = 0" | "?m = ?n" by (auto simp: min_def max_def)
  then show False
  proof cases
    case 1
    then show ?thesis using k(3) no_tie_flat [OF n] by simp
  next
    case 2
    then show ?thesis using k(3) no_tie_diagonal [OF n] by simp
  qed
qed


subsection \<open>Worlds in which the two directions differ\<close>

lemma blocks_single_block_world:
  "blocks (single_block_world c) k = (if k = c then Some (Block (fst c) (snd c) ''stone'') else None)"
  by (simp add: single_block_world_def)

lemma occupied_single_block_world: "occupied (single_block_world c) k \<longleftrightarrow> k = c"
  by (simp add: occupied_def blocks_single_block_world)

lemma line_of_sight_blocked:
  assumes "\<not> chebyshev_adjacent (cell_of a) (cell_of b)"
    "c \<in> set (los_cells (cell_of a) (cell_of b))" "occupied w c"
  shows "check_line_of_sight w (fst a) (snd a) (fst b) (snd b) = Some False"
  using assms check_line_of_sight_cells [of w "fst a" "snd a" "fst b" "snd b"]
  by (auto simp: list_all_iff occupied_def)

lemma line_of_sight_clear:
  assumes "\<forall>c\<in>set (los_cells (cell_of a) (cell_of b)). \<not> occupied w c"
  shows "check_line_of_sight w (fst a) (snd a) (fst b) (snd b) = Some True"
  using assms check_line_of_sight_cells [of w "fst a" "snd a" "fst b" "snd b"]
  by (auto simp: list_all_iff occupied_def)

lemma one_end_occupied_differs:
  assumes n: "\<not> chebyshev_adjacent (cell_of a) (cell_of b)"
  shows "occupied (single_block_world (cell_of a)) (cell_of a) \<and>
         \<not> occupied (single_block_world (cell_of a)) (cell_of b) \<and>
         check_line_of_sight (single_block_world (cell_of a)) (fst a) (snd a) (fst b) (snd b) =
           Some False \<and>
         check_line_of_sight (single_block_world (cell_of a)) (fst b) (snd b) (fst a) (snd a) =
           Some True"
proof -
  let ?A = "cell_of a" and ?B = "cell_of b"
  let ?w = "single_block_world ?A"
  have ne: "?B \<noteq> ?A" using n by (auto simp: chebyshev_adjacent_def)
  have 1: "occupied ?w ?A" "\<not> occupied ?w ?B"
    using ne by (simp_all add: occupied_single_block_world)
  have 2: "check_line_of_sight ?w (fst a) (snd a) (fst b) (snd b) = Some False"
    using n los_cells_start [OF n] 1(1) by (rule line_of_sight_blocked)
  have "\<forall>c\<in>set (los_cells ?B ?A). \<not> occupied ?w c"
    using los_cells_end [of ?A ?B] by (auto simp: occupied_single_block_world)
  then have 3: "check_line_of_sight ?w (fst b) (snd b) (fst a) (snd a) = Some True"
    by (rule line_of_sight_clear)
  show ?thesis using 1 2 3 by simp
qed

lemma tie_differs:
  assumes t: "has_tie (cell_of a) (cell_of b)"
  shows "\<exists>w'. \<not> occupied w' (cell_of a) \<and> \<not> occupied w' (cell_of b) \<and>
           check_line_of_sight w' (fst a) (snd a) (fst b) (snd b) = Some False \<and>
           check_line_of_sight w' (fst b) (snd b) (fst a) (snd a) = Some True"
proof -
  let ?A = "cell_of a" and ?B = "cell_of b"
  let ?n = "max \<bar>fst ?B - fst ?A\<bar> \<bar>snd ?B - snd ?A\<bar>"
  let ?m = "min \<bar>fst ?B - fst ?A\<bar> \<bar>snd ?B - snd ?A\<bar>"
  from t obtain k where "1 \<le> k" "k < ?n" "tie_at ?n ?m k"
    by (auto simp: has_tie_def Let_def)
  then have k: "0 < k" "k < ?n" "tie_at ?n ?m k" by simp_all
  define F where "F = line_cell ?A ?B k"
  let ?w = "single_block_world F"
  have na: "\<not> chebyshev_adjacent ?A ?B"
    using k(1,2) by (auto simp: chebyshev_adjacent_def max_def split: if_splits)
  have lk: "nat k < length (los_cells ?A ?B)" using k by (simp add: length_los_cells)
  have Fk: "los_cells ?A ?B ! nat k = F"
    using los_cells_nth [OF lk] k by (simp add: F_def)
  have Fin: "F \<in> set (los_cells ?A ?B)"
    using lk Fk nth_mem by metis
  have rev: "line_cell ?B ?A j \<noteq> F" if "0 \<le> j" "j < ?n" for j
    using line_cell_reverse(2) [OF k(1,2) k(3) that] by (simp add: F_def)
  have ne: "?B \<noteq> ?A" using na by (auto simp: chebyshev_adjacent_def)
  have FB: "F \<noteq> ?B"
    using rev [of 0] k(1,2) line_cell_0 [OF ne] by auto
  have out: "F \<notin> set (los_cells ?B ?A)"
  proof
    assume "F \<in> set (los_cells ?B ?A)"
    then obtain j where j: "j < length (los_cells ?B ?A)" "los_cells ?B ?A ! j = F"
      by (auto simp: in_set_conv_nth)
    then have "int j < ?n" by (simp add: length_los_cells abs_minus_commute)
    with rev [of "int j"] j show False by (simp add: los_cells_nth)
  qed
  have FA: "F \<noteq> ?A"
  proof
    assume "F = ?A"
    then have "line_cell ?A ?B k = line_cell ?A ?B 0"
      using line_cell_0 [OF ne [symmetric]] by (simp add: F_def)
    then have "k = 0"
      by (cases "\<bar>snd ?B - snd ?A\<bar> < \<bar>fst ?B - fst ?A\<bar>")
        (auto simp: line_cell_def Let_def split: if_splits)
    then show False using k(1) by simp
  qed
  have 1: "\<not> occupied ?w ?A" "\<not> occupied ?w ?B"
    using FA FB by (auto simp: occupied_single_block_world)
  have 2: "check_line_of_sight ?w (fst a) (snd a) (fst b) (snd b) = Some False"
    using na Fin by (rule line_of_sight_blocked) (simp add: occupied_single_block_world)
  have "\<forall>c\<in>set (los_cells ?B ?A). \<not> occupied ?w c"
    using out by (auto simp: occupied_single_block_world)
  then have 3: "check_line_of_sight ?w (fst b) (snd b) (fst a) (snd a) = Some True"
    by (rule line_of_sight_clear)
  show ?thesis using 1 2 3 by blast
qed

lemma chebyshev_adjacent_sym: "chebyshev_adjacent a b \<longleftrightarrow> chebyshev_adjacent b a"
  by (auto simp: chebyshev_adjacent_def)

lemma line_of_sight_symmetric_no_tie:
  assumes "chebyshev_adjacent (cell_of a) (cell_of b) \<or>
           (occupied w (cell_of a) \<and> occupied w (cell_of b)) \<or>
           (\<not> occupied w (cell_of a) \<and> \<not> occupied w (cell_of b) \<and>
            \<not> has_tie (cell_of a) (cell_of b))"
  shows "check_line_of_sight w (fst a) (snd a) (fst b) (snd b) =
         check_line_of_sight w (fst b) (snd b) (fst a) (snd a)"
proof -
  let ?A = "cell_of a" and ?B = "cell_of b"
  let ?P = "\<lambda>c. blocks w c = None"
  have l: "check_line_of_sight w (fst a) (snd a) (fst b) (snd b) =
      Some (chebyshev_adjacent ?A ?B \<or> list_all ?P (los_cells ?A ?B))"
    using check_line_of_sight_cells [of w "fst a" "snd a" "fst b" "snd b"] by simp
  have r: "check_line_of_sight w (fst b) (snd b) (fst a) (snd a) =
      Some (chebyshev_adjacent ?A ?B \<or> list_all ?P (los_cells ?B ?A))"
    using check_line_of_sight_cells [of w "fst b" "snd b" "fst a" "snd a"]
    by (simp add: chebyshev_adjacent_sym [of ?B])
  show ?thesis
  proof (cases "chebyshev_adjacent ?A ?B")
    case True
    then show ?thesis by (simp add: l r)
  next
    case False
    then have nb: "\<not> chebyshev_adjacent ?B ?A" by (simp add: chebyshev_adjacent_sym [of ?B])
    from assms False consider
      (occ) "occupied w ?A" "occupied w ?B"
      | (emp) "?P ?A" "?P ?B" "\<not> has_tie ?A ?B"
      by (auto simp: occupied_def)
    then show ?thesis
    proof cases
      case occ
      have "check_line_of_sight w (fst a) (snd a) (fst b) (snd b) = Some False"
        using False los_cells_start [OF False] occ(1) by (rule line_of_sight_blocked)
      moreover have "check_line_of_sight w (fst b) (snd b) (fst a) (snd a) = Some False"
        using nb los_cells_start [OF nb] occ(2) by (rule line_of_sight_blocked)
      ultimately show ?thesis by simp
    next
      case emp
      from los_cells_clear_sym [OF emp(3), of ?P] emp(1,2) show ?thesis
        by (simp add: l r)
    qed
  qed
qed

text \<open>
  Claim C2, as amended. \<^verbatim>\<open>check_line_of_sight\<close> gives the same answer in both directions
  when the two cells are within Chebyshev distance 1 (both answers are true), when both end
  cells are occupied (both answers are false beyond the fast path), and when both end cells
  are empty and the line has no tie, that is, no index \<open>k\<close> strictly between 0 and the major
  extent \<open>n\<close> at which \<open>k * m / n\<close> is an integer plus a half (\<open>m\<close> the minor extent). Rows,
  columns and exact diagonals have no tie. Nothing more can be kept for all worlds: for
  every pair of cells with a tie there is a world with both end cells empty in which the
  two directions differ, and for every pair beyond the fast path there is a world with
  exactly one end cell occupied in which they differ.
\<close>

theorem line_of_sight_symmetric_cases:
  "(chebyshev_adjacent (cell_of a) (cell_of b) \<or>
    (occupied w (cell_of a) \<and> occupied w (cell_of b)) \<or>
    (\<not> occupied w (cell_of a) \<and> \<not> occupied w (cell_of b) \<and>
     \<not> has_tie (cell_of a) (cell_of b))
    \<longrightarrow> check_line_of_sight w (fst a) (snd a) (fst b) (snd b) =
          check_line_of_sight w (fst b) (snd b) (fst a) (snd a)) \<and>
   (fst (cell_of a) = fst (cell_of b) \<or> snd (cell_of a) = snd (cell_of b) \<or>
    \<bar>fst (cell_of b) - fst (cell_of a)\<bar> = \<bar>snd (cell_of b) - snd (cell_of a)\<bar>
    \<longrightarrow> \<not> has_tie (cell_of a) (cell_of b)) \<and>
   (has_tie (cell_of a) (cell_of b)
    \<longrightarrow> (\<exists>w'. \<not> occupied w' (cell_of a) \<and> \<not> occupied w' (cell_of b) \<and>
           check_line_of_sight w' (fst a) (snd a) (fst b) (snd b) \<noteq>
           check_line_of_sight w' (fst b) (snd b) (fst a) (snd a))) \<and>
   (\<not> chebyshev_adjacent (cell_of a) (cell_of b)
    \<longrightarrow> (\<exists>w'. occupied w' (cell_of a) \<and> \<not> occupied w' (cell_of b) \<and>
           check_line_of_sight w' (fst a) (snd a) (fst b) (snd b) \<noteq>
           check_line_of_sight w' (fst b) (snd b) (fst a) (snd a)))"
proof (intro conjI impI)
  assume "chebyshev_adjacent (cell_of a) (cell_of b) \<or>
    (occupied w (cell_of a) \<and> occupied w (cell_of b)) \<or>
    (\<not> occupied w (cell_of a) \<and> \<not> occupied w (cell_of b) \<and>
     \<not> has_tie (cell_of a) (cell_of b))"
  then show "check_line_of_sight w (fst a) (snd a) (fst b) (snd b) =
      check_line_of_sight w (fst b) (snd b) (fst a) (snd a)"
    by (rule line_of_sight_symmetric_no_tie)
next
  assume "fst (cell_of a) = fst (cell_of b) \<or> snd (cell_of a) = snd (cell_of b) \<or>
    \<bar>fst (cell_of b) - fst (cell_of a)\<bar> = \<bar>snd (cell_of b) - snd (cell_of a)\<bar>"
  then show "\<not> has_tie (cell_of a) (cell_of b)"
    by (rule no_tie_axis_or_diagonal)
next
  assume "has_tie (cell_of a) (cell_of b)"
  from tie_differs [OF this]
  show "\<exists>w'. \<not> occupied w' (cell_of a) \<and> \<not> occupied w' (cell_of b) \<and>
      check_line_of_sight w' (fst a) (snd a) (fst b) (snd b) \<noteq>
      check_line_of_sight w' (fst b) (snd b) (fst a) (snd a)"
    by auto
next
  assume "\<not> chebyshev_adjacent (cell_of a) (cell_of b)"
  from one_end_occupied_differs [OF this]
  show "\<exists>w'. occupied w' (cell_of a) \<and> \<not> occupied w' (cell_of b) \<and>
      check_line_of_sight w' (fst a) (snd a) (fst b) (snd b) \<noteq>
      check_line_of_sight w' (fst b) (snd b) (fst a) (snd a)"
    by (intro exI [of _ "single_block_world (cell_of a)"]) simp
qed

theorem line_of_sight_symmetric_witness:
  "\<not> occupied (World_init flat_rnd) (cell_of (48, 16)) \<and>
   \<not> occupied (World_init flat_rnd) (cell_of (144, 48)) \<and>
   \<not> occupied (World_init flat_rnd) (cell_of (176, 16)) \<and>
   \<not> has_tie (cell_of (48, 16)) (cell_of (144, 48)) \<and>
   check_line_of_sight (World_init flat_rnd) 48 16 144 48 =
     check_line_of_sight (World_init flat_rnd) 144 48 48 16 \<and>
   snd (cell_of (48, 16)) = snd (cell_of (176, 16)) \<and>
   \<not> chebyshev_adjacent (cell_of (48, 16)) (cell_of (176, 16)) \<and>
   \<not> has_tie (cell_of (48, 16)) (cell_of (176, 16)) \<and>
   check_line_of_sight (World_init flat_rnd) 48 16 176 16 =
     check_line_of_sight (World_init flat_rnd) 176 16 48 16 \<and>
   (\<exists>w'. occupied w' (cell_of (48, 16)) \<and> \<not> occupied w' (cell_of (176, 16)) \<and>
      check_line_of_sight w' 48 16 176 16 \<noteq> check_line_of_sight w' 176 16 48 16) \<and>
   has_tie (cell_of (48, 816)) (cell_of (112, 784)) \<and>
   (\<exists>w'. \<not> occupied w' (cell_of (48, 816)) \<and> \<not> occupied w' (cell_of (112, 784)) \<and>
      check_line_of_sight w' 48 816 112 784 \<noteq> check_line_of_sight w' 112 784 48 816)"
proof -
  let ?w = "World_init flat_rnd"
  have c: "cell_of (48, 16) = (1, 0)" "cell_of (176, 16) = (5, 0)" "cell_of (144, 48) = (4, 1)"
    "cell_of (48, 816) = (1, 25)" "cell_of (112, 784) = (3, 24)"
    by (simp_all add: cell_of_def BLOCK_SIZE_def)
  have o: "\<not> occupied ?w (cell_of (48, 16))" "\<not> occupied ?w (cell_of (144, 48))"
    "\<not> occupied ?w (cell_of (176, 16))"
    by (simp_all add: c occupied_def blocks_flat_world world_consts)
  have "\<not> (\<exists>k\<in>{1..<3}. (6::int) dvd 2 * k - 3)"
    by (simp add: Bex_def) presburger
  then have t1: "\<not> has_tie (cell_of (48, 16)) (cell_of (144, 48))"
    by (simp add: c has_tie_def tie_at_def)
  note A = line_of_sight_symmetric_cases [of "(48, 16)" "(144, 48)" ?w]
  have 1: "check_line_of_sight ?w 48 16 144 48 = check_line_of_sight ?w 144 48 48 16"
    using A o t1 by simp
  note B = line_of_sight_symmetric_cases [of "(48, 16)" "(176, 16)" ?w]
  have r: "snd (cell_of (48, 16)) = snd (cell_of (176, 16))" by (simp add: c)
  have n: "\<not> chebyshev_adjacent (cell_of (48, 16)) (cell_of (176, 16))"
    by (simp add: c chebyshev_adjacent_def)
  have t2: "\<not> has_tie (cell_of (48, 16)) (cell_of (176, 16))"
    using B r by blast
  have 2: "check_line_of_sight ?w 48 16 176 16 = check_line_of_sight ?w 176 16 48 16"
    using B o t2 by simp
  have 3: "\<exists>w'. occupied w' (cell_of (48, 16)) \<and> \<not> occupied w' (cell_of (176, 16)) \<and>
      check_line_of_sight w' 48 16 176 16 \<noteq> check_line_of_sight w' 176 16 48 16"
    using B n by simp
  have "\<exists>k\<in>{1..<2}. (4::int) dvd 2 * k - 2"
    by (intro bexI [of _ 1]) simp_all
  then have t3: "has_tie (cell_of (48, 816)) (cell_of (112, 784))"
    by (simp add: c has_tie_def tie_at_def)
  have 4: "\<exists>w'. \<not> occupied w' (cell_of (48, 816)) \<and> \<not> occupied w' (cell_of (112, 784)) \<and>
      check_line_of_sight w' 48 816 112 784 \<noteq> check_line_of_sight w' 112 784 48 816"
    using line_of_sight_symmetric_cases [of "(48, 816)" "(112, 784)" ?w] t3 by simp
  show ?thesis using o t1 1 r n t2 2 3 t3 4 by blast
qed

lemma valid_step_rnd: "valid_rnd step_rnd"
  by (simp add: valid_rnd_def step_rnd_def)

lemma step_heights:
  "generate_heights step_rnd ! nat 1 = 26"
  "generate_heights step_rnd ! nat 2 = 25"
  "generate_heights step_rnd ! nat 3 = 25"
proof -
  have h0: "generate_heights step_rnd ! nat 0 = 26"
    by (simp add: generate_heights_0 step_rnd_def clamp_height_def WORLD_HEIGHT_def)
  have "generate_heights step_rnd ! nat (0 + 1) =
      clamp_height (generate_heights step_rnd ! nat 0 + step_rnd (0 + 1))"
    by (rule generate_heights_Suc) (simp_all add: WORLD_WIDTH_def)
  then show h1: "generate_heights step_rnd ! nat 1 = 26"
    using h0 by (simp add: step_rnd_def clamp_height_def WORLD_HEIGHT_def)
  have "generate_heights step_rnd ! nat (1 + 1) =
      clamp_height (generate_heights step_rnd ! nat 1 + step_rnd (1 + 1))"
    by (rule generate_heights_Suc) (simp_all add: WORLD_WIDTH_def)
  then show h2: "generate_heights step_rnd ! nat 2 = 25"
    using h1 by (simp add: step_rnd_def clamp_height_def WORLD_HEIGHT_def)
  have "generate_heights step_rnd ! nat (2 + 1) =
      clamp_height (generate_heights step_rnd ! nat 2 + step_rnd (2 + 1))"
    by (rule generate_heights_Suc) (simp_all add: WORLD_WIDTH_def)
  then show "generate_heights step_rnd ! nat 3 = 25"
    using h2 by (simp add: step_rnd_def clamp_height_def WORLD_HEIGHT_def)
qed

lemma step_world_cells:
  "blocks (World_init step_rnd) (1, 25) = None"
  "blocks (World_init step_rnd) (2, 25) = Some (Block 2 25 ''grass'')"
  "blocks (World_init step_rnd) (2, 24) = None"
  "blocks (World_init step_rnd) (3, 24) = None"
  using step_heights by (simp_all add: blocks_World_init terrain_at_def world_consts)

lemma los_cells_slanted:
  "los_cells (1, 25) (3, 24) = [(1, 25), (2, 25)]"
  "los_cells (3, 24) (1, 25) = [(3, 24), (2, 24)]"
  by (simp_all add: los_cells_def eval_nat_numeral)

theorem line_of_sight_asymmetric_counterexample:
  "reachable (World_init step_rnd) \<and>
   cell_of (48, 816) = (1, 25) \<and> cell_of (112, 784) = (3, 24) \<and>
   \<not> occupied (World_init step_rnd) (1, 25) \<and>
   \<not> occupied (World_init step_rnd) (3, 24) \<and>
   check_line_of_sight (World_init step_rnd) 48 816 112 784 = Some False \<and>
   check_line_of_sight (World_init step_rnd) 112 784 48 816 = Some True"
proof -
  have r: "reachable (World_init step_rnd)"
    by (rule reach_init) (rule valid_step_rnd)
  have c: "cell_of (48, 816) = (1, 25)" "cell_of (112, 784) = (3, 24)"
    by (simp_all add: cell_of_def BLOCK_SIZE_def)
  have f: "check_line_of_sight (World_init step_rnd) 48 816 112 784 = Some False"
    by (simp add: check_line_of_sight_cells c los_cells_slanted step_world_cells
        chebyshev_adjacent_def)
  have b: "check_line_of_sight (World_init step_rnd) 112 784 48 816 = Some True"
    by (simp add: check_line_of_sight_cells c los_cells_slanted step_world_cells
        chebyshev_adjacent_def)
  show ?thesis
    using r c f b by (simp add: occupied_def step_world_cells)
qed

section \<open>The void check of the player\<close>

lemma spawn_handle_input [simp]:
  "spawn_x (handle_input ks p) = spawn_x p" "spawn_y (handle_input ks p) = spawn_y p"
  by (simp_all add: handle_input_def Let_def)

lemma spawn_jump_and_gravity [simp]:
  "spawn_x (jump_and_gravity ks w p) = spawn_x p" "spawn_y (jump_and_gravity ks w p) = spawn_y p"
  by (simp_all add: jump_and_gravity_def Let_def)

lemma spawn_move_rect [simp]:
  "spawn_x (move_rect_x d p) = spawn_x p" "spawn_y (move_rect_x d p) = spawn_y p"
  "spawn_x (move_rect_y d p) = spawn_x p" "spawn_y (move_rect_y d p) = spawn_y p"
  by (simp_all add: move_rect_x_def move_rect_y_def)

lemma spawn_horizontal_move [simp]:
  "spawn_x (horizontal_move w p) = spawn_x p" "spawn_y (horizontal_move w p) = spawn_y p"
  by (simp_all add: horizontal_move_def Let_def)

lemma spawn_vertical_steps:
  "spawn_x (vertical_steps w step n p) = spawn_x p \<and>
   spawn_y (vertical_steps w step n p) = spawn_y p"
  by (induction n arbitrary: p) (simp_all add: Let_def)

lemma spawn_vertical_move [simp]:
  "spawn_x (vertical_move w p) = spawn_x p" "spawn_y (vertical_move w p) = spawn_y p"
  by (simp_all add: vertical_move_def Let_def spawn_vertical_steps)

lemma spawn_update_motion:
  "spawn_x (update_motion ks w p) = spawn_x p" "spawn_y (update_motion ks w p) = spawn_y p"
  by (simp_all add: update_motion_def)

text \<open>
  Claim C9. When, at the void check of \<^verbatim>\<open>update\<close>, the player's vertical position exceeds
  \<open>WORLD_HEIGHT * BLOCK_SIZE\<close>, the player is respawned: the result of the update has its
  position at the spawn coordinates and both velocity components zero. When it does not,
  the update ends with the state the motion left: \<^verbatim>\<open>respawn\<close> is reached from the void
  check only.
\<close>

theorem update_respawns_below_world:
  "(rect_y (player_rect (update_motion ks w p)) > WORLD_HEIGHT * BLOCK_SIZE \<longrightarrow>
      update ks w p = respawn (update_motion ks w p) \<and>
      rect_x (player_rect (update ks w p)) = spawn_x p \<and>
      rect_y (player_rect (update ks w p)) = spawn_y p \<and>
      velocity_x (update ks w p) = 0 \<and>
      velocity_y (update ks w p) = 0) \<and>
   (\<not> rect_y (player_rect (update_motion ks w p)) > WORLD_HEIGHT * BLOCK_SIZE \<longrightarrow>
      update ks w p = update_motion ks w p)"
  by (simp add: update_def Let_def respawn_def spawn_update_motion)

lemma check_collision_left_of_world:
  assumes "rect_right r < 0"
  shows "\<not> check_collision w r"
proof -
  have "rect_right r div BLOCK_SIZE + 1 \<le> 0"
    using assms by (simp add: BLOCK_SIZE_def)
  then show ?thesis
    unfolding check_collision_iff by auto
qed

lemma rect_right_move_rect_y [simp]:
  "rect_right (player_rect (move_rect_y d p)) = rect_right (player_rect p)"
  by (simp add: move_rect_y_def rect_right_def)

lemma move_rect_y_twice: "move_rect_y a (move_rect_y b p) = move_rect_y (b + a) p"
  by (simp add: move_rect_y_def)

lemma vertical_steps_left_of_world:
  "rect_right (player_rect p) < 0 \<Longrightarrow>
   vertical_steps w step n p = move_rect_y (int n * step) p"
proof (induction n arbitrary: p)
  case 0
  then show ?case by (simp add: move_rect_y_def)
next
  case (Suc n)
  have "\<not> check_collision w (player_rect (move_rect_y step p))"
    using Suc.prems by (intro check_collision_left_of_world) simp
  moreover have "vertical_steps w step n (move_rect_y step p) =
      move_rect_y (int n * step) (move_rect_y step p)"
    using Suc.prems by (intro Suc.IH) simp
  ultimately show ?case
    by (simp add: Let_def move_rect_y_twice algebra_simps)
qed

lemma falling_motion:
  "update_motion no_keys w falling_player =
     falling_player\<lparr>player_rect := Rect (- 100) 1608 38 83\<rparr>"
proof -
  let ?p1 = "handle_input no_keys falling_player"
  have 1: "?p1 = falling_player"
    by (simp add: handle_input_def no_keys_def falling_player_def)
  have g: "\<not> check_ground falling_player w"
    unfolding check_ground_def Let_def
    by (rule check_collision_left_of_world)
      (simp add: falling_player_def Rect_def rect_right_def)
  have 2: "jump_and_gravity no_keys w falling_player = falling_player"
    using g by (simp add: jump_and_gravity_def Let_def no_keys_def)
      (simp add: falling_player_def GRAVITY_def MAX_FALL_SPEED_def)
  have 3: "horizontal_move w falling_player = falling_player"
    by (simp add: horizontal_move_def Let_def move_rect_x_def falling_player_def)
  have r: "rect_right (player_rect falling_player) < 0"
    by (simp add: falling_player_def Rect_def rect_right_def)
  have 4: "vertical_move w falling_player = move_rect_y 10 falling_player"
    using vertical_steps_left_of_world [OF r, of w 1 10]
    by (simp add: vertical_move_def Let_def py_int_def) (simp add: falling_player_def)
  show ?thesis
    by (simp add: update_motion_def 1 2 3 4) (simp add: move_rect_y_def falling_player_def Rect_def)
qed

theorem update_respawns_witness:
  "rect_y (player_rect (update_motion no_keys (World_init flat_rnd) falling_player)) >
     WORLD_HEIGHT * BLOCK_SIZE \<and>
   rect_x (player_rect (update no_keys (World_init flat_rnd) falling_player)) = 1600 \<and>
   rect_y (player_rect (update no_keys (World_init flat_rnd) falling_player)) = 704 \<and>
   velocity_x (update no_keys (World_init flat_rnd) falling_player) = 0 \<and>
   velocity_y (update no_keys (World_init flat_rnd) falling_player) = 0"
proof -
  let ?w = "World_init flat_rnd"
  have h: "rect_y (player_rect (update_motion no_keys ?w falling_player)) >
      WORLD_HEIGHT * BLOCK_SIZE"
    by (simp add: falling_motion Rect_def WORLD_HEIGHT_def BLOCK_SIZE_def)
  have s: "spawn_x falling_player = 1600" "spawn_y falling_player = 704"
    by (simp_all add: falling_player_def)
  from update_respawns_below_world [of no_keys ?w falling_player] h
  have "rect_x (player_rect (update no_keys ?w falling_player)) = spawn_x falling_player \<and>
      rect_y (player_rect (update no_keys ?w falling_player)) = spawn_y falling_player \<and>
      velocity_x (update no_keys ?w falling_player) = 0 \<and>
      velocity_y (update no_keys ?w falling_player) = 0"
    by blast
  with h show ?thesis unfolding s by blast
qed

end
